theory Spec2Isabelle
  imports Complex_Main "HOL-Library.Sublist"
begin

section \<open>Text, characters and Python's sequence operations\<close>

text \<open>
  A Python \<^verbatim>\<open>str\<close> is a sequence of Unicode code points, and every index and length of
  \<^verbatim>\<open>app.py\<close> counts code points. A text is therefore a list of code points, each a
  natural number; the rupee sign is the single code point 8377.
\<close>

type_synonym ustr = "nat list"

definition ascii :: "string \<Rightarrow> ustr" where
  "ascii s = map of_char s"

definition LBRACKET :: nat where "LBRACKET = 91"
definition RBRACKET :: nat where "RBRACKET = 93"
definition BACKSLASH :: nat where "BACKSLASH = 92"
definition APOSTROPHE :: nat where "APOSTROPHE = 39"
definition DQUOTE :: nat where "DQUOTE = 34"
definition COLON :: nat where "COLON = 58"
definition HYPHEN :: nat where "HYPHEN = 45"
definition COMMA :: nat where "COMMA = 44"
definition DOT :: nat where "DOT = 46"
definition RUPEE :: nat where "RUPEE = 8377"

lemmas char_defs =
  LBRACKET_def RBRACKET_def BACKSLASH_def APOSTROPHE_def DQUOTE_def COLON_def
  HYPHEN_def COMMA_def DOT_def RUPEE_def

text \<open>
  The exceptions the modelled code can raise. \<^verbatim>\<open>extract_js_array\<close> raises
  \<^verbatim>\<open>ValueError\<close> with two different messages; the specification names them
  \<open>InvalidStart\<close> and \<open>UnterminatedArray\<close>, and the model keeps them apart.
\<close>

datatype error =
    IndexError
  | InvalidStart
  | UnterminatedArray
  | AttributeError
  | ValueError

text \<open>
  \<^verbatim>\<open>xs[i]\<close>: a negative index counts from the end, an index outside
  \<open>-len \<le> i < len\<close> raises \<^verbatim>\<open>IndexError\<close>.
\<close>

definition py_index :: "'a list \<Rightarrow> int \<Rightarrow> error + 'a" where
  "py_index xs i =
     (if i < - int (length xs) \<or> int (length xs) \<le> i then Inl IndexError
      else if i < 0 then Inr (xs ! nat (i + int (length xs)))
      else Inr (xs ! nat i))"

text \<open>
  \<^verbatim>\<open>xs[a:b]\<close>: each bound is taken from the end when negative and then clamped to
  \<open>0 .. len\<close>; the slice is empty when the bounds cross. Slicing never raises.
\<close>

definition slice_bound :: "'a list \<Rightarrow> int \<Rightarrow> nat" where
  "slice_bound xs a =
     (if a < 0 then nat (max 0 (a + int (length xs)))
      else min (nat a) (length xs))"

definition py_slice :: "'a list \<Rightarrow> int \<Rightarrow> int \<Rightarrow> 'a list" where
  "py_slice xs a b = take (slice_bound xs b - slice_bound xs a) (drop (slice_bound xs a) xs)"

section \<open>The lexical array extractor\<close>

text \<open>
  The local variables of the loop of \<^verbatim>\<open>extract_js_array\<close>, apart from the index
  \<^verbatim>\<open>i\<close>. \<^verbatim>\<open>string_delim\<close> is a string: empty at first, later the one-character
  string that opened the current string literal.
\<close>

record scan_state =
  depth :: int
  in_string :: bool
  string_delim :: ustr
  escaped :: bool

text \<open>
  One pass through the body of the \<^verbatim>\<open>while\<close> loop on the character \<open>ch\<close>: the new
  values of the variables, and whether the body reached its \<^verbatim>\<open>return\<close>.
\<close>

definition loop_body :: "scan_state \<Rightarrow> nat \<Rightarrow> scan_state \<times> bool" where
  "loop_body st ch =
     (if in_string st then
        (if escaped st then (st\<lparr>escaped := False\<rparr>, False)
         else if ch = BACKSLASH then (st\<lparr>escaped := True\<rparr>, False)
         else if [ch] = string_delim st then (st\<lparr>in_string := False\<rparr>, False)
         else (st, False))
      else
        (if ch = APOSTROPHE \<or> ch = DQUOTE then
           (st\<lparr>in_string := True, string_delim := [ch]\<rparr>, False)
         else if ch = LBRACKET then (st\<lparr>depth := depth st + 1\<rparr>, False)
         else if ch = RBRACKET then (st\<lparr>depth := depth st - 1\<rparr>, depth st - 1 = 0)
         else (st, False)))"

text \<open>
  The \<^verbatim>\<open>while i < len(text)\<close> loop. It returns the slice
  \<^verbatim>\<open>text[start_bracket_idx : i + 1]\<close> from inside the body, and raises
  \<^verbatim>\<open>ValueError("Unterminated JS array")\<close> when the index reaches the end of the text.
\<close>

function scan_loop :: "ustr \<Rightarrow> int \<Rightarrow> int \<Rightarrow> scan_state \<Rightarrow> error + ustr" where
  "scan_loop text start_bracket_idx i st =
     (if i < int (length text) then
        (case py_index text i of
           Inl e \<Rightarrow> Inl e
         | Inr ch \<Rightarrow>
             (case loop_body st ch of
                (st', returned) \<Rightarrow>
                  if returned then Inr (py_slice text start_bracket_idx (i + 1))
                  else scan_loop text start_bracket_idx (i + 1) st'))
      else Inl UnterminatedArray)"
  by pat_completeness auto
termination
  by (relation "measure (\<lambda>(text, s, i, st). nat (int (length text) - i))") auto

definition initial_state :: scan_state where
  "initial_state = \<lparr>depth = 0, in_string = False, string_delim = [], escaped = False\<rparr>"

definition extract_js_array :: "ustr \<Rightarrow> int \<Rightarrow> error + ustr" where
  "extract_js_array text start_bracket_idx =
     (case py_index text start_bracket_idx of
        Inl e \<Rightarrow> Inl e
      | Inr c \<Rightarrow>
          if c \<noteq> LBRACKET then Inl InvalidStart
          else scan_loop text start_bracket_idx start_bracket_idx initial_state)"

section \<open>The bracket depth of a text, as the specification describes it\<close>

text \<open>
  The specification's reading of a text, independent of the loop above: a character is
  either outside every string literal (\<open>Code\<close>), inside a string literal opened by the
  quote character \<open>q\<close> (\<open>Str q\<close>), or inside one and directly behind a backslash
  (\<open>Esc q\<close>). A bracket counts only outside string literals.
\<close>

datatype mode = Code | Str nat | Esc nat

fun next_mode :: "mode \<Rightarrow> nat \<Rightarrow> mode" where
  "next_mode Code c = (if c = APOSTROPHE \<or> c = DQUOTE then Str c else Code)"
| "next_mode (Str q) c = (if c = BACKSLASH then Esc q else if c = q then Code else Str q)"
| "next_mode (Esc q) c = Str q"

definition bracket_step :: "mode \<Rightarrow> nat \<Rightarrow> int" where
  "bracket_step m c =
     (if m = Code \<and> c = LBRACKET then 1 else if m = Code \<and> c = RBRACKET then - 1 else 0)"

fun mode_after :: "mode \<Rightarrow> ustr \<Rightarrow> mode" where
  "mode_after m [] = m"
| "mode_after m (c # cs) = mode_after (next_mode m c) cs"

fun depth_from :: "mode \<Rightarrow> ustr \<Rightarrow> int" where
  "depth_from m [] = 0"
| "depth_from m (c # cs) = bracket_step m c + depth_from (next_mode m c) cs"

definition bracket_depth :: "ustr \<Rightarrow> int" where
  "bracket_depth cs = depth_from Code cs"

text \<open>
  The span of \<open>n\<close> characters at the head of \<open>cs\<close> closes when the bracket depth, which
  starts at 0, is back at 0 after these \<open>n\<close> characters and after no shorter non-empty
  prefix. \<open>never_closes\<close> says that no non-empty prefix brings the depth back to 0.
\<close>

definition closes_at :: "ustr \<Rightarrow> nat \<Rightarrow> bool" where
  "closes_at cs n \<longleftrightarrow>
     0 < n \<and> n \<le> length cs \<and> bracket_depth (take n cs) = 0 \<and>
     (\<forall>j \<in> {1..<n}. bracket_depth (take j cs) \<noteq> 0)"

definition never_closes :: "ustr \<Rightarrow> bool" where
  "never_closes cs \<longleftrightarrow> (\<forall>n \<in> {1..length cs}. bracket_depth (take n cs) \<noteq> 0)"

text \<open>
  The characters the loop reads, in order, when it starts at index \<open>i\<close>: the text from
  \<open>i\<close> on and, for a negative \<open>i\<close> (which Python counts from the end), the last \<open>-i\<close>
  characters followed by the whole text, since the index then runs on through 0.
\<close>

definition scanned :: "ustr \<Rightarrow> int \<Rightarrow> ustr" where
  "scanned text i =
     (if i < 0 then drop (nat (i + int (length text))) text @ text else drop (nat i) text)"

subsection \<open>Auxiliary notions for the proofs\<close>

text \<open>
  The loop without its index: the number of characters read up to and including the
  closing bracket at which the loop returns, started in mode \<open>m\<close> at depth \<open>d\<close>; and the
  reading of the loop's variables as a mode, with the invariant that makes it exact.
\<close>

fun first_close :: "mode \<Rightarrow> int \<Rightarrow> ustr \<Rightarrow> nat option" where
  "first_close m d [] = None"
| "first_close m d (c # cs) =
     (if m = Code \<and> c = RBRACKET \<and> d - 1 = 0 then Some 1
      else map_option Suc (first_close (next_mode m c) (d + bracket_step m c) cs))"

definition mode_of :: "scan_state \<Rightarrow> mode" where
  "mode_of st =
     (if in_string st then
        (if escaped st then Esc (hd (string_delim st)) else Str (hd (string_delim st)))
      else Code)"

definition wf_state :: "scan_state \<Rightarrow> bool" where
  "wf_state st \<longleftrightarrow>
     (in_string st \<longrightarrow> length (string_delim st) = 1) \<and> (\<not> in_string st \<longrightarrow> \<not> escaped st)"

text \<open>
  The loop's variables after the body has run on the characters \<open>cs\<close> in turn, from the
  initial values.
\<close>

definition state_after :: "ustr \<Rightarrow> scan_state" where
  "state_after cs = foldl (\<lambda>st ch. fst (loop_body st ch)) initial_state cs"

section \<open>The anchor locator\<close>

text \<open>
  \<^verbatim>\<open>s.find(sub, start)\<close>: the lowest index at or after \<open>start\<close> where \<open>sub\<close> begins,
  or \<open>-1\<close>. \<open>find_at sub rest i\<close> searches \<open>rest\<close>, whose first character has index \<open>i\<close>
  in the whole text. A start past the end finds nothing, not even the empty string.
\<close>

fun find_at :: "ustr \<Rightarrow> ustr \<Rightarrow> nat \<Rightarrow> int" where
  "find_at sub [] i = (if sub = [] then int i else - 1)"
| "find_at sub (c # cs) i = (if prefix sub (c # cs) then int i else find_at sub cs (Suc i))"

definition py_find :: "ustr \<Rightarrow> ustr \<Rightarrow> int \<Rightarrow> int" where
  "py_find s sub start =
     (if int (length s) < start then - 1
      else find_at sub (drop (slice_bound s start) s) (slice_bound s start))"

text \<open>\<^verbatim>\<open>xs[a:]\<close>.\<close>

definition py_slice_from :: "'a list \<Rightarrow> int \<Rightarrow> 'a list" where
  "py_slice_from xs a = drop (slice_bound xs a) xs"

text \<open>
  \<^verbatim>\<open>re.search(r"\[", s)\<close>: the match's \<^verbatim>\<open>start()\<close>, the index of the first \<open>[\<close> of \<open>s\<close>,
  or no match.
\<close>

fun re_search_lbracket :: "ustr \<Rightarrow> nat option" where
  "re_search_lbracket [] = None"
| "re_search_lbracket (c # cs) =
     (if c = LBRACKET then Some 0 else map_option Suc (re_search_lbracket cs))"

text \<open>
  \<^verbatim>\<open>extract_array_for_key\<close>: \<open>Inr None\<close> is the returned \<^verbatim>\<open>None\<close>, \<open>Inl e\<close> an exception
  of \<open>extract_js_array\<close> passing through.
\<close>

definition extract_array_for_key :: "ustr \<Rightarrow> ustr \<Rightarrow> error + ustr option" where
  "extract_array_for_key html key =
     (let pos = py_find html key 0 in
      if pos = - 1 then Inr None
      else
        let colon = py_find html [COLON] pos in
        if colon = - 1 then Inr None
        else
          (case re_search_lbracket (py_slice_from html colon) of
             None \<Rightarrow> Inr None
           | Some m_start \<Rightarrow>
               (case extract_js_array html (colon + int m_start) of
                  Inl e \<Rightarrow> Inl e
                | Inr arr \<Rightarrow> Inr (Some arr))))"

text \<open>
  The specification's words: \<open>sub\<close> occurs in \<open>s\<close> at index \<open>p\<close>; and \<open>c\<close> is the first
  index at or after \<open>p\<close> where \<open>sub\<close> occurs.
\<close>

definition occurs_at :: "ustr \<Rightarrow> ustr \<Rightarrow> nat \<Rightarrow> bool" where
  "occurs_at sub s p \<longleftrightarrow> p \<le> length s \<and> prefix sub (drop p s)"

definition first_from :: "ustr \<Rightarrow> ustr \<Rightarrow> nat \<Rightarrow> nat \<Rightarrow> bool" where
  "first_from sub s p c \<longleftrightarrow>
     p \<le> c \<and> occurs_at sub s c \<and> (\<forall>j \<in> {p..<c}. \<not> occurs_at sub s j)"

section \<open>Python values and library functions\<close>

text \<open>
  The interpreter's functions and settings are not part of the repository; the model
  takes them as a parameter. \<open>str_lower\<close> is \<^verbatim>\<open>str.lower\<close>, \<open>str_capitalize\<close> is
  \<^verbatim>\<open>str.capitalize\<close>, \<open>decimal_digit c\<close> is the digit value of the character \<open>c\<close> when
  it is a Unicode decimal digit (the characters \<^verbatim>\<open>\d\<close> matches and \<^verbatim>\<open>int\<close> accepts),
  \<open>int_of_str\<close> is \<^verbatim>\<open>int\<close> on a string (\<open>None\<close> for \<^verbatim>\<open>ValueError\<close>), and
  \<open>urlparse_netloc u\<close> is \<^verbatim>\<open>urlparse(u).netloc\<close>, which can raise.
  \<open>int_max_str_digits\<close> is \<^verbatim>\<open>sys.get_int_max_str_digits()\<close>: converting between an
  integer and its decimal text raises \<^verbatim>\<open>ValueError\<close> when the number of digits exceeds
  it; 0 stands for no limit, and the default of Python 3.11 is 4300.
\<close>

record pylib =
  str_lower :: "ustr \<Rightarrow> ustr"
  str_capitalize :: "ustr \<Rightarrow> ustr"
  decimal_digit :: "nat \<Rightarrow> nat option"
  int_of_str :: "ustr \<Rightarrow> int option"
  urlparse_netloc :: "ustr \<Rightarrow> error + ustr"
  int_max_str_digits :: nat

definition within_digit_limit :: "pylib \<Rightarrow> nat \<Rightarrow> bool" where
  "within_digit_limit L n \<longleftrightarrow> int_max_str_digits L = 0 \<or> n \<le> int_max_str_digits L"

text \<open>
  A decoded value. A float is a rational together with the text \<^verbatim>\<open>str\<close> gives for it;
  \<open>POther\<close> is any other value (a list, an object, a non-finite float, the decoder's
  \<^verbatim>\<open>undefined\<close>), given by what the code can observe of it: its truth value, the text
  \<^verbatim>\<open>str\<close> gives for it, and the result of \<^verbatim>\<open>int\<close> on it, if any.
\<close>

datatype pyval =
    PNone
  | PBool bool
  | PInt int
  | PFloat rat ustr
  | PStr ustr
  | POther bool ustr "int option"

definition py_truthy :: "pyval \<Rightarrow> bool" where
  "py_truthy v =
     (case v of
        PNone \<Rightarrow> False
      | PBool b \<Rightarrow> b
      | PInt i \<Rightarrow> i \<noteq> 0
      | PFloat x r \<Rightarrow> x \<noteq> 0
      | PStr s \<Rightarrow> s \<noteq> []
      | POther t r i \<Rightarrow> t)"

text \<open>\<^verbatim>\<open>a or b\<close>.\<close>

definition py_or :: "pyval \<Rightarrow> pyval \<Rightarrow> pyval" where
  "py_or a b = (if py_truthy a then a else b)"

text \<open>The decimal digits of a natural number, and \<^verbatim>\<open>str\<close> of an integer.\<close>

fun digits_of :: "nat \<Rightarrow> ustr" where
  "digits_of n = (if n < 10 then [48 + n] else digits_of (n div 10) @ [48 + n mod 10])"

definition MINUS :: nat where "MINUS = 45"

definition str_of_int :: "int \<Rightarrow> ustr" where
  "str_of_int i = (if i < 0 then MINUS # digits_of (nat (- i)) else digits_of (nat i))"

text \<open>
  \<^verbatim>\<open>str(v)\<close>, which an f-string applies to the value it formats. It raises on an
  integer with more digits than the limit allows.
\<close>

definition py_str :: "pylib \<Rightarrow> pyval \<Rightarrow> error + ustr" where
  "py_str L v =
     (case v of
        PNone \<Rightarrow> Inr (ascii ''None'')
      | PBool b \<Rightarrow> Inr (if b then ascii ''True'' else ascii ''False'')
      | PInt i \<Rightarrow>
          if within_digit_limit L (length (digits_of (nat \<bar>i\<bar>))) then Inr (str_of_int i)
          else Inl ValueError
      | PFloat x r \<Rightarrow> Inr r
      | PStr s \<Rightarrow> Inr s
      | POther t r i \<Rightarrow> Inr r)"

text \<open>
  \<^verbatim>\<open>int(v)\<close>, with \<open>None\<close> for the exceptions it raises. A float is truncated towards
  zero.
\<close>

definition py_int :: "pylib \<Rightarrow> pyval \<Rightarrow> int option" where
  "py_int L v =
     (case v of
        PNone \<Rightarrow> None
      | PBool b \<Rightarrow> Some (if b then 1 else 0)
      | PInt i \<Rightarrow> Some i
      | PFloat x r \<Rightarrow> Some (if 0 \<le> x then \<lfloor>x\<rfloor> else \<lceil>x\<rceil>)
      | PStr s \<Rightarrow> int_of_str L s
      | POther t r i \<Rightarrow> i)"

text \<open>A decoded record, and \<^verbatim>\<open>p.get(k)\<close>.\<close>

type_synonym pydict = "ustr \<rightharpoonup> pyval"

definition dict_get :: "pydict \<Rightarrow> ustr \<Rightarrow> pyval" where
  "dict_get p k = (case p k of None \<Rightarrow> PNone | Some v \<Rightarrow> v)"

text \<open>
  \<^verbatim>\<open>s.strip()\<close> removes the characters for which \<^verbatim>\<open>str.isspace\<close> holds from both
  ends, \<^verbatim>\<open>s.strip("-")\<close> the hyphens.
\<close>

definition is_space :: "nat \<Rightarrow> bool" where
  "is_space c \<longleftrightarrow>
     (9 \<le> c \<and> c \<le> 13) \<or> (28 \<le> c \<and> c \<le> 32) \<or> c = 133 \<or> c = 160 \<or> c = 5760
     \<or> (8192 \<le> c \<and> c \<le> 8202) \<or> c = 8232 \<or> c = 8233 \<or> c = 8239 \<or> c = 8287 \<or> c = 12288"

definition strip_chars :: "(nat \<Rightarrow> bool) \<Rightarrow> ustr \<Rightarrow> ustr" where
  "strip_chars P s = rev (dropWhile P (rev (dropWhile P s)))"

text \<open>\<^verbatim>\<open>s.split(sep)\<close> for a one-character separator.\<close>

fun split_on :: "nat \<Rightarrow> ustr \<Rightarrow> ustr list" where
  "split_on sep [] = [[]]"
| "split_on sep (c # cs) =
     (if c = sep then [] # split_on sep cs
      else (case split_on sep cs of r # rs \<Rightarrow> (c # r) # rs | [] \<Rightarrow> [[c]]))"

text \<open>
  \<^verbatim>\<open>s.replace(old, new)\<close>: every occurrence of \<open>old\<close>, found left to right without
  overlap, is replaced; an empty \<open>old\<close> matches before every character and at the end.
\<close>

function replace_nonempty :: "ustr \<Rightarrow> ustr \<Rightarrow> ustr \<Rightarrow> ustr" where
  "replace_nonempty old new [] = []"
| "replace_nonempty old new (c # cs) =
     (if old \<noteq> [] \<and> prefix old (c # cs)
      then new @ replace_nonempty old new (drop (length old - 1) cs)
      else c # replace_nonempty old new cs)"
  by pat_completeness auto
termination
  by (relation "measure (\<lambda>(old, new, s). length s)") auto

definition py_replace :: "ustr \<Rightarrow> ustr \<Rightarrow> ustr \<Rightarrow> ustr" where
  "py_replace s old new =
     (if old = [] then new @ concat (map (\<lambda>c. c # new) s) else replace_nonempty old new s)"

section \<open>Slugs\<close>

text \<open>The character class \<^verbatim>\<open>[a-z0-9]\<close>.\<close>

definition is_slug_alnum :: "nat \<Rightarrow> bool" where
  "is_slug_alnum c \<longleftrightarrow> (97 \<le> c \<and> c \<le> 122) \<or> (48 \<le> c \<and> c \<le> 57)"

text \<open>
  \<^verbatim>\<open>re.sub(r"[^a-z0-9]+", "-", s)\<close>: every maximal run of characters outside the class
  becomes one hyphen.
\<close>

function sub_non_alnum :: "ustr \<Rightarrow> ustr" where
  "sub_non_alnum [] = []"
| "sub_non_alnum (c # cs) =
     (if is_slug_alnum c then c # sub_non_alnum cs
      else HYPHEN # sub_non_alnum (dropWhile (\<lambda>x. \<not> is_slug_alnum x) cs))"
  by pat_completeness auto
termination
  by (relation "measure length") (auto simp: le_imp_less_Suc length_dropWhile_le)

text \<open>
  \<^verbatim>\<open>re.sub(r"-{2,}", "-", s)\<close>: every maximal run of two or more hyphens becomes one
  hyphen.
\<close>

function collapse_hyphens :: "ustr \<Rightarrow> ustr" where
  "collapse_hyphens [] = []"
| "collapse_hyphens (c # cs) =
     (if c = HYPHEN \<and> cs \<noteq> [] \<and> hd cs = HYPHEN
      then HYPHEN # collapse_hyphens (dropWhile (\<lambda>x. x = HYPHEN) cs)
      else c # collapse_hyphens cs)"
  by pat_completeness auto
termination
  by (relation "measure length") (auto simp: le_imp_less_Suc length_dropWhile_le)

text \<open>
  \<^verbatim>\<open>normalize_slug\<close>. Its argument is a string: \<^verbatim>\<open>(s or "")\<close> is then \<open>s\<close> itself.
\<close>

definition normalize_slug :: "pylib \<Rightarrow> ustr \<Rightarrow> ustr" where
  "normalize_slug L s =
     (let s1 = str_lower L (strip_chars is_space s);
          s2 = sub_non_alnum s1;
          s3 = strip_chars (\<lambda>c. c = HYPHEN) (collapse_hyphens s2)
      in s3)"

text \<open>
  The specification's slug: the empty text, or runs of characters of \<^verbatim>\<open>[a-z0-9]\<close>, none
  of them empty, joined by single hyphens.
\<close>

definition is_slug :: "ustr \<Rightarrow> bool" where
  "is_slug t \<longleftrightarrow>
     t = [] \<or> (\<forall>r \<in> set (split_on HYPHEN t). r \<noteq> [] \<and> (\<forall>c \<in> set r. is_slug_alnum c))"

text \<open>
  What is known of \<^verbatim>\<open>str.lower\<close>: it leaves a text of lower-case ASCII letters, digits
  and hyphens as it is.
\<close>

definition lower_keeps_slugs :: "pylib \<Rightarrow> bool" where
  "lower_keeps_slugs L \<longleftrightarrow>
     (\<forall>t. (\<forall>c \<in> set t. is_slug_alnum c \<or> c = HYPHEN) \<longrightarrow> str_lower L t = t)"

subsection \<open>Auxiliary notion for the proofs\<close>

fun no_double_hyphen :: "ustr \<Rightarrow> bool" where
  "no_double_hyphen (a # b # cs) \<longleftrightarrow> \<not> (a = HYPHEN \<and> b = HYPHEN) \<and> no_double_hyphen (b # cs)"
| "no_double_hyphen cs \<longleftrightarrow> True"

definition slug_char :: "nat \<Rightarrow> bool" where
  "slug_char c \<longleftrightarrow> is_slug_alnum c \<or> c = HYPHEN"

definition slug_shape :: "ustr \<Rightarrow> bool" where
  "slug_shape t \<longleftrightarrow>
     (\<forall>c \<in> set t. slug_char c) \<and> no_double_hyphen t
     \<and> (t = [] \<or> (hd t \<noteq> HYPHEN \<and> last t \<noteq> HYPHEN))"

section \<open>Prices and merchants\<close>

text \<open>
  \<^verbatim>\<open>f"{k:,}"\<close>: the decimal digits of \<open>k\<close> with a comma before every group of three
  digits counted from the right, behind the sign.
\<close>

function group_thousands :: "ustr \<Rightarrow> ustr" where
  "group_thousands ds =
     (if length ds \<le> 3 then ds
      else group_thousands (take (length ds - 3) ds) @ COMMA # drop (length ds - 3) ds)"
  by pat_completeness auto
termination
  by (relation "measure length") auto

definition format_comma :: "int \<Rightarrow> ustr" where
  "format_comma k =
     (if k < 0 then MINUS # group_thousands (digits_of (nat (- k)))
      else group_thousands (digits_of (nat k)))"

text \<open>
  \<^verbatim>\<open>rupee\<close>: \<^verbatim>\<open>None\<close> for \<^verbatim>\<open>None\<close>; the rupee sign and the grouped digits of
  \<^verbatim>\<open>int(n)\<close>; and, in the \<^verbatim>\<open>except\<close> branch, \<^verbatim>\<open>str(n)\<close> when \<^verbatim>\<open>int(n)\<close> or the
  formatting of its digits raises. An exception of that \<^verbatim>\<open>str(n)\<close> leaves the function.
\<close>

definition rupee :: "pylib \<Rightarrow> pyval \<Rightarrow> error + ustr option" where
  "rupee L n =
     (if n = PNone then Inr None
      else
        (case py_int L n of
           Some k \<Rightarrow>
             if within_digit_limit L (length (digits_of (nat \<bar>k\<bar>)))
             then Inr (Some (RUPEE # format_comma k))
             else (case py_str L n of Inl e \<Rightarrow> Inl e | Inr r \<Rightarrow> Inr (Some r))
         | None \<Rightarrow> (case py_str L n of Inl e \<Rightarrow> Inl e | Inr r \<Rightarrow> Inr (Some r))))"

text \<open>
  \<^verbatim>\<open>clean_price_to_int\<close>. \<^verbatim>\<open>re.sub(r"[^\d]", "", s)\<close> keeps the decimal digits of \<open>s\<close>,
  and \<^verbatim>\<open>int\<close> of a non-empty text of decimal digits is its value in base ten, or
  \<^verbatim>\<open>ValueError\<close> when the digits are more than the limit allows.
\<close>

definition digit_value :: "pylib \<Rightarrow> nat \<Rightarrow> int" where
  "digit_value L c = (case decimal_digit L c of Some d \<Rightarrow> int d | None \<Rightarrow> 0)"

definition int_of_digits :: "pylib \<Rightarrow> ustr \<Rightarrow> int" where
  "int_of_digits L ds = foldl (\<lambda>a c. 10 * a + digit_value L c) 0 ds"

definition clean_price_to_int :: "pylib \<Rightarrow> ustr option \<Rightarrow> error + int" where
  "clean_price_to_int L price_str =
     (case price_str of
        None \<Rightarrow> Inr (10 ^ 12)
      | Some s \<Rightarrow>
          if s = [] then Inr (10 ^ 12)
          else
            let digits = filter (\<lambda>c. decimal_digit L c \<noteq> None) s
            in if digits \<noteq> []
               then (if within_digit_limit L (length digits) then Inr (int_of_digits L digits)
                     else Inl ValueError)
               else Inr (10 ^ 12))"

definition DOMAIN_MAP :: "(ustr \<times> ustr) list" where
  "DOMAIN_MAP =
     [(ascii ''amazon.in'', ascii ''Amazon''),
      (ascii ''flipkart.com'', ascii ''Flipkart''),
      (ascii ''croma.com'', ascii ''Croma''),
      (ascii ''jiomart.com'', ascii ''JioMart''),
      (ascii ''reliancedigital.in'', ascii ''Reliance Digital''),
      (ascii ''vijaysales.com'', ascii ''Vijay Sales''),
      (ascii ''apple.com'', ascii ''Apple Store''),
      (ascii ''bigbasket.com'', ascii ''BigBasket''),
      (ascii ''shopsy.in'', ascii ''Shopsy''),
      (ascii ''paiinternational.in'', ascii ''Pai International'')]"

text \<open>
  \<^verbatim>\<open>domain_to_merchant\<close>. A false value (\<^verbatim>\<open>None\<close>, the empty string) gives the
  fallback; \<^verbatim>\<open>urlparse\<close> raises on a true value that is not a string.
\<close>

definition domain_to_merchant :: "pylib \<Rightarrow> pyval \<Rightarrow> ustr \<Rightarrow> error + ustr" where
  "domain_to_merchant L url fallback =
     (if \<not> py_truthy url then Inr fallback
      else
        (case url of
           PStr u \<Rightarrow>
             (case urlparse_netloc L u of
                Inl e \<Rightarrow> Inl e
              | Inr netloc \<Rightarrow>
                  let domain = str_lower L netloc;
                      domain = py_replace domain (ascii ''www.'') []
                  in Inr (case map_of DOMAIN_MAP domain of
                            Some name \<Rightarrow> name
                          | None \<Rightarrow>
                              str_capitalize L
                                (case split_on DOT domain of label # rest \<Rightarrow> label | [] \<Rightarrow> [])))
         | _ \<Rightarrow> Inl AttributeError))"

section \<open>The projections\<close>

text \<open>
  The body of the loop of \<^verbatim>\<open>scrape_buyhatke_search\<close> over the decoded records and the
  loop itself. \<^verbatim>\<open>normalize_slug\<close> is called on \<^verbatim>\<open>prodSearch or (prod or "")\<close>, and its
  \<^verbatim>\<open>.strip()\<close> raises \<^verbatim>\<open>AttributeError\<close> when that value is not a string.
\<close>

record search_hit =
  title :: pyval
  hit_price :: pyval
  redirect_url :: ustr

definition slug_source :: "pydict \<Rightarrow> pyval" where
  "slug_source p = py_or (dict_get p (ascii ''prodSearch'')) (py_or (dict_get p (ascii ''prod'')) (PStr []))"

definition search_hit_of :: "pylib \<Rightarrow> pydict \<Rightarrow> error + search_hit" where
  "search_hit_of L p =
     (let prod_name = dict_get p (ascii ''prod'') in
      case py_or (slug_source p) (PStr []) of
        PStr s \<Rightarrow>
          let prod_search = normalize_slug L s;
              pos = dict_get p (ascii ''pos'');
              internal_pid = dict_get p (ascii ''internalPid'')
          in (case py_str L pos of
                Inl e \<Rightarrow> Inl e
              | Inr pos_text \<Rightarrow>
                  (case py_str L internal_pid of
                     Inl e \<Rightarrow> Inl e
                   | Inr pid_text \<Rightarrow>
                       Inr \<lparr>title = prod_name, hit_price = dict_get p (ascii ''price''),
                            redirect_url = ascii ''https://buyhatke.com/'' @ prod_search
                              @ ascii ''-price-in-india-'' @ pos_text @ ascii ''-''
                              @ pid_text\<rparr>))
      | _ \<Rightarrow> Inl AttributeError)"

fun search_results :: "pylib \<Rightarrow> pydict list \<Rightarrow> error + search_hit list" where
  "search_results L [] = Inr []"
| "search_results L (p # ps) =
     (case search_hit_of L p of
        Inl e \<Rightarrow> Inl e
      | Inr h \<Rightarrow> (case search_results L ps of Inl e \<Rightarrow> Inl e | Inr hs \<Rightarrow> Inr (h # hs)))"

text \<open>
  The body of the loop of \<^verbatim>\<open>scrape_product_offers\<close> over the decoded deals. No
  \<^verbatim>\<open>try\<close> encloses it, so an exception of \<^verbatim>\<open>domain_to_merchant\<close> leaves the function.
\<close>

record offer =
  merchant :: ustr
  product :: pyval
  price :: "ustr option"
  url :: pyval

definition offer_of :: "pylib \<Rightarrow> pydict \<Rightarrow> error + offer" where
  "offer_of L item =
     (let price_val = dict_get item (ascii ''price'');
          link = dict_get item (ascii ''link'')
      in case domain_to_merchant L link (ascii ''Unknown'') of
           Inl e \<Rightarrow> Inl e
         | Inr m \<Rightarrow>
             (case rupee L price_val of
                Inl e \<Rightarrow> Inl e
              | Inr pr \<Rightarrow>
                  Inr \<lparr>merchant = m, product = dict_get item (ascii ''prod''),
                       price = pr, url = link\<rparr>))"

fun offers_of :: "pylib \<Rightarrow> pydict list \<Rightarrow> error + offer list" where
  "offers_of L [] = Inr []"
| "offers_of L (item # items) =
     (case offer_of L item of
        Inl e \<Rightarrow> Inl e
      | Inr off \<Rightarrow> (case offers_of L items of Inl e \<Rightarrow> Inl e | Inr offs \<Rightarrow> Inr (off # offs)))"

text \<open>
  \<^verbatim>\<open>min(xs, key=f)\<close>: the key of every element is computed once, in order, and an
  exception of \<open>f\<close> leaves \<^verbatim>\<open>min\<close>; the result is the first element whose key no other
  element undercuts; \<^verbatim>\<open>ValueError\<close> on an empty sequence. \<open>cheapest_offer\<close> is the
  call in \<^verbatim>\<open>main\<close>.
\<close>

fun min_scan :: "('a \<Rightarrow> error + int) \<Rightarrow> 'a \<Rightarrow> int \<Rightarrow> 'a list \<Rightarrow> error + 'a" where
  "min_scan key best best_key [] = Inr best"
| "min_scan key best best_key (x # xs) =
     (case key x of
        Inl e \<Rightarrow> Inl e
      | Inr k \<Rightarrow> if k < best_key then min_scan key x k xs else min_scan key best best_key xs)"

definition py_min :: "('a \<Rightarrow> error + int) \<Rightarrow> 'a list \<Rightarrow> error + 'a" where
  "py_min key xs =
     (case xs of
        [] \<Rightarrow> Inl ValueError
      | x # rest \<Rightarrow> (case key x of Inl e \<Rightarrow> Inl e | Inr k \<Rightarrow> min_scan key x k rest))"

definition cheapest_offer :: "pylib \<Rightarrow> offer list \<Rightarrow> error + offer" where
  "cheapest_offer L offers = py_min (\<lambda>x. clean_price_to_int L (price x)) offers"

subsection \<open>Auxiliary notion for the proofs\<close>

fun min_from :: "('a \<Rightarrow> int) \<Rightarrow> 'a \<Rightarrow> 'a list \<Rightarrow> 'a" where
  "min_from key best [] = best"
| "min_from key best (x # xs) = min_from key (if key x < key best then x else best) xs"

section \<open>The library on ASCII text\<close>

text \<open>
  An instance of the library parameter for the example inputs: each function as Python
  computes it on printable ASCII text, with the default digit limit of Python 3.11.
  \<open>ascii_int\<close> reads an optional sign and a run of
  digits between optional white space (Python also accepts single underscores between
  digits, which no example uses), and \<open>ascii_netloc\<close> is the network location of a URL
  without brackets, as \<^verbatim>\<open>urlsplit\<close> finds it: behind the scheme and \<^verbatim>\<open>//\<close>, up to the next
  \<^verbatim>\<open>/\<close>, \<^verbatim>\<open>?\<close> or \<^verbatim>\<open>#\<close>.
\<close>

definition ascii_lower :: "nat \<Rightarrow> nat" where
  "ascii_lower c = (if 65 \<le> c \<and> c \<le> 90 then c + 32 else c)"

definition ascii_upper :: "nat \<Rightarrow> nat" where
  "ascii_upper c = (if 97 \<le> c \<and> c \<le> 122 then c - 32 else c)"

definition ascii_capitalize :: "ustr \<Rightarrow> ustr" where
  "ascii_capitalize s = (case s of [] \<Rightarrow> [] | c # cs \<Rightarrow> ascii_upper c # map ascii_lower cs)"

definition ascii_digit :: "nat \<Rightarrow> nat option" where
  "ascii_digit c = (if 48 \<le> c \<and> c \<le> 57 then Some (c - 48) else None)"

definition ascii_int :: "ustr \<Rightarrow> int option" where
  "ascii_int s =
     (let t = strip_chars is_space s;
          neg = (t \<noteq> [] \<and> hd t = MINUS);
          ds = (if t \<noteq> [] \<and> (hd t = MINUS \<or> hd t = 43) then tl t else t)
      in if ds \<noteq> [] \<and> (\<forall>c \<in> set ds. ascii_digit c \<noteq> None) \<and> length ds \<le> 4300
         then Some ((if neg then - 1 else 1)
                * foldl (\<lambda>a c. 10 * a + int (c - 48)) 0 ds)
         else None)"

definition is_scheme_char :: "nat \<Rightarrow> bool" where
  "is_scheme_char c \<longleftrightarrow>
     (97 \<le> c \<and> c \<le> 122) \<or> (65 \<le> c \<and> c \<le> 90) \<or> (48 \<le> c \<and> c \<le> 57)
     \<or> c = 43 \<or> c = 45 \<or> c = 46"

definition ascii_netloc :: "ustr \<Rightarrow> error + ustr" where
  "ascii_netloc u =
     (let i = py_find u [COLON] 0;
          rest = (if 0 < i \<and> (\<forall>c \<in> set (take (nat i) u). is_scheme_char c)
                     \<and> \<not> (48 \<le> hd u \<and> hd u \<le> 57) \<and> hd u \<notin> {43, 45, 46}
                  then drop (nat i + 1) u else u)
      in if take 2 rest = [47, 47]
         then Inr (takeWhile (\<lambda>c. c \<noteq> 47 \<and> c \<noteq> 63 \<and> c \<noteq> 35) (drop 2 rest))
         else Inr [])"

definition ascii_lib :: pylib where
  "ascii_lib =
     \<lparr>str_lower = map ascii_lower, str_capitalize = ascii_capitalize,
      decimal_digit = ascii_digit, int_of_str = ascii_int, urlparse_netloc = ascii_netloc,
      int_max_str_digits = 4300\<rparr>"

text \<open>
  What is known of the decimal digits of every Python: on ASCII they are the characters
  \<^verbatim>\<open>0\<close> to \<^verbatim>\<open>9\<close> with their values.
\<close>

definition ascii_digits :: "pylib \<Rightarrow> bool" where
  "ascii_digits L \<longleftrightarrow> (\<forall>c<128. decimal_digit L c = ascii_digit c)"

section \<open>The currency text, as the specification describes it\<close>



section \<open>Example inputs\<close>

definition example_text :: ustr where
  "example_text = [120, LBRACKET, APOSTROPHE, RBRACKET, APOSTROPHE, COMMA, LBRACKET, 49,
     RBRACKET, RBRACKET, 120]"


definition example_html :: ustr where
  "example_html = ascii ''foo: [{a:1},{a:2}];''"


definition example_title :: ustr where
  "example_title = ascii '' Apple  iPhone (15)! ''"


definition absent_offer :: offer where
  "absent_offer = \<lparr>merchant = ascii ''B'', product = PNone, price = None, url = PNone\<rparr>"

definition dear_offer :: offer where
  "dear_offer =
     \<lparr>merchant = ascii ''D'', product = PNone,
      price = Some (RUPEE # ascii ''1,000,000,000,001''), url = PNone\<rparr>"

definition offer_a :: offer where
  "offer_a = \<lparr>merchant = ascii ''A'', product = PNone, price = Some (RUPEE # ascii ''500''),
     url = PNone\<rparr>"

definition offer_c :: offer where
  "offer_c = \<lparr>merchant = ascii ''C'', product = PNone, price = Some (RUPEE # ascii ''300''),
     url = PNone\<rparr>"


definition long_offer :: offer where
  "long_offer = \<lparr>merchant = ascii ''E'', product = PNone, price = Some (replicate 4301 49),
     url = PNone\<rparr>"





definition phone_record :: pydict where
  "phone_record =
     map_of [(ascii ''prod'', PStr (ascii ''Apple iPhone 15 (Black)'')),
             (ascii ''prodSearch'', PStr (ascii ''Apple iPhone 15'')),
             (ascii ''pos'', PInt 63), (ascii ''internalPid'', PInt 12345),
             (ascii ''price'', PInt 79900)]"

definition untitled_record :: pydict where
  "untitled_record = map_of [(ascii ''pos'', PInt 2), (ascii ''internalPid'', PStr (ascii ''7a''))]"

definition blank_search_record :: pydict where
  "blank_search_record =
     map_of [(ascii ''prod'', PStr (ascii ''Phone'')), (ascii ''prodSearch'', PStr []),
             (ascii ''pos'', PInt 1), (ascii ''internalPid'', PInt 2)]"

definition numeric_search_record :: pydict where
  "numeric_search_record =
     map_of [(ascii ''prod'', PStr (ascii ''Phone'')), (ascii ''prodSearch'', PInt 15),
             (ascii ''pos'', PInt 1), (ascii ''internalPid'', PInt 2)]"

section \<open>The loop against the specification's reading\<close>

lemma wf_state_delim:
  "wf_state st \<Longrightarrow> in_string st \<Longrightarrow> string_delim st = [hd (string_delim st)]"
  by (cases "string_delim st") (simp_all add: wf_state_def)

lemma loop_body_sim:
  assumes "wf_state st" "loop_body st c = (st', r)"
  shows "wf_state st'" "mode_of st' = next_mode (mode_of st) c"
    "depth st' = depth st + bracket_step (mode_of st) c"
    "r \<longleftrightarrow> mode_of st = Code \<and> c = RBRACKET \<and> depth st - 1 = 0"
proof -
  consider (esc) "in_string st" "escaped st"
    | (str) "in_string st" "\<not> escaped st"
    | (code) "\<not> in_string st" "\<not> escaped st"
    using assms(1) by (auto simp: wf_state_def)
  then have "wf_state st' \<and> mode_of st' = next_mode (mode_of st) c
    \<and> depth st' = depth st + bracket_step (mode_of st) c
    \<and> (r \<longleftrightarrow> mode_of st = Code \<and> c = RBRACKET \<and> depth st - 1 = 0)"
  proof cases
    case esc
    then have "st' = st\<lparr>escaped := False\<rparr>" "\<not> r"
      using assms(2) by (simp_all add: loop_body_def)
    then show ?thesis using esc assms(1)
      by (simp add: wf_state_def mode_of_def bracket_step_def)
  next
    case str
    note d = wf_state_delim [OF assms(1) str(1)]
    have eq: "[c] = string_delim st \<longleftrightarrow> c = hd (string_delim st)"
      using d by (metis list.sel(1))
    show ?thesis
    proof (cases "c = BACKSLASH")
      case True
      then have "st' = st\<lparr>escaped := True\<rparr>" "\<not> r"
        using assms(2) str by (simp_all add: loop_body_def)
      then show ?thesis using str True assms(1)
        by (simp add: wf_state_def mode_of_def bracket_step_def)
    next
      case False
      show ?thesis
      proof (cases "c = hd (string_delim st)")
        case True
        then have "st' = st\<lparr>in_string := False\<rparr>" "\<not> r"
          using assms(2) str False eq by (simp_all add: loop_body_def)
        then show ?thesis using str True False assms(1)
          by (simp add: wf_state_def mode_of_def bracket_step_def)
      next
        case nd: False
        then have "st' = st" "\<not> r"
          using assms(2) str False eq by (simp_all add: loop_body_def)
        then show ?thesis using str nd False assms(1)
          by (simp add: wf_state_def mode_of_def bracket_step_def)
      qed
    qed
  next
    case code
    show ?thesis
    proof (cases "c = APOSTROPHE \<or> c = DQUOTE")
      case True
      then have "st' = st\<lparr>in_string := True, string_delim := [c]\<rparr>" "\<not> r"
        using assms(2) code by (auto simp add: loop_body_def)
      then show ?thesis using code True
        by (auto simp add: wf_state_def mode_of_def bracket_step_def char_defs)
    next
      case False
      then have "st' = (if c = LBRACKET then st\<lparr>depth := depth st + 1\<rparr>
                        else if c = RBRACKET then st\<lparr>depth := depth st - 1\<rparr> else st)"
        "r \<longleftrightarrow> c \<noteq> LBRACKET \<and> c = RBRACKET \<and> depth st - 1 = 0"
        using assms(2) code by (auto simp add: loop_body_def split: if_splits)
      then show ?thesis using code False
        by (auto simp add: wf_state_def mode_of_def bracket_step_def char_defs)
    qed
  qed
  then show "wf_state st'" "mode_of st' = next_mode (mode_of st) c"
    "depth st' = depth st + bracket_step (mode_of st) c"
    "r \<longleftrightarrow> mode_of st = Code \<and> c = RBRACKET \<and> depth st - 1 = 0"
    by blast+
qed


declare scan_loop.simps [simp del]

declare digits_of.simps [simp del] group_thousands.simps [simp del]
  sub_non_alnum.simps [simp del] collapse_hyphens.simps [simp del]
  replace_nonempty.simps [simp del]

lemma scanned_step:
  assumes "- int (length text) \<le> i" "i < int (length text)"
  shows "\<exists>c. py_index text i = Inr c \<and> scanned text i = c # scanned text (i + 1)"
proof (cases "i < 0")
  case True
  let ?k = "nat (i + int (length text))"
  have k: "?k < length text" using assms True by linarith
  have d: "drop ?k text = text ! ?k # drop (Suc ?k) text"
    using k by (simp add: Cons_nth_drop_Suc)
  have w: "scanned text (i + 1) = drop (Suc ?k) text @ text"
  proof (cases "i + 1 < 0")
    case True
    then have "nat (i + 1 + int (length text)) = Suc ?k" using assms by linarith
    then show ?thesis using True by (simp add: scanned_def)
  next
    case False
    then have i: "i = -1" using True by linarith
    then have "Suc ?k = length text" using k by linarith
    then show ?thesis using i by (simp add: scanned_def)
  qed
  have "py_index text i = Inr (text ! ?k)"
    using True assms by (simp add: py_index_def)
  moreover have "scanned text i = text ! ?k # scanned text (i + 1)"
    using True d w by (simp add: scanned_def)
  ultimately show ?thesis by blast
next
  case False
  then have k: "nat i < length text" using assms by linarith
  then have "drop (nat i) text = text ! nat i # drop (Suc (nat i)) text"
    by (simp add: Cons_nth_drop_Suc)
  moreover have "nat (i + 1) = Suc (nat i)" using False by linarith
  ultimately have "scanned text i = text ! nat i # scanned text (i + 1)"
    using False by (simp add: scanned_def)
  moreover have "py_index text i = Inr (text ! nat i)"
    using False assms by (simp add: py_index_def)
  ultimately show ?thesis by blast
qed

lemma scanned_end: "int (length text) \<le> i \<Longrightarrow> scanned text i = []"
  by (simp add: scanned_def)

lemma scan_loop_scanned:
  "wf_state st \<Longrightarrow> - int (length text) \<le> i \<Longrightarrow>
   scan_loop text s i st =
     (case first_close (mode_of st) (depth st) (scanned text i) of
        None \<Rightarrow> Inl UnterminatedArray
      | Some k \<Rightarrow> Inr (py_slice text s (i + int k)))"
proof (induction "text" s i st rule: scan_loop.induct)
  case (1 t s i st)
  let ?text = t
  show ?case
  proof (cases "i < int (length t)")
    case False
    then show ?thesis by (subst scan_loop.simps) (simp add: scanned_end)
  next
    case True
    from scanned_step [OF "1.prems"(2) True] obtain c where
      c: "py_index t i = Inr c" "scanned t i = c # scanned t (i + 1)" by blast
    obtain st' r where b: "loop_body st c = (st', r)" by (cases "loop_body st c")
    note sim = loop_body_sim [OF "1.prems"(1) b]
    show ?thesis
    proof (cases r)
      case True
      have "scan_loop t s i st = Inr (py_slice t s (i + 1))"
        using c b True \<open>i < int (length t)\<close> by (subst scan_loop.simps) simp
      moreover have "first_close (mode_of st) (depth st) (scanned t i) = Some 1"
        using sim(4) True c(2) by simp
      ultimately show ?thesis by simp
    next
      case False
      have ih: "scan_loop t s (i + 1) st' =
         (case first_close (mode_of st') (depth st') (scanned t (i + 1)) of
            None \<Rightarrow> Inl UnterminatedArray
          | Some k \<Rightarrow> Inr (py_slice t s (i + 1 + int k)))"
        using "1.IH" [OF True c(1) b [symmetric] False sim(1)] "1.prems"(2) by simp
      have step: "scan_loop t s i st = scan_loop t s (i + 1) st'"
        using c b False True by (subst scan_loop.simps) simp
      have fc: "first_close (mode_of st) (depth st) (scanned t i) =
          map_option Suc (first_close (mode_of st') (depth st') (scanned t (i + 1)))"
      proof -
        have nr: "\<not> (mode_of st = Code \<and> c = RBRACKET \<and> depth st - 1 = 0)"
          using sim(4) False by blast
        have "first_close (mode_of st) (depth st) (c # scanned t (i + 1)) =
            map_option Suc (first_close (next_mode (mode_of st) c)
              (depth st + bracket_step (mode_of st) c) (scanned t (i + 1)))"
          using nr by (simp only: first_close.simps if_False)
        then show ?thesis by (simp only: sim(2,3) c(2))
      qed
      show ?thesis unfolding step ih fc
        by (cases "first_close (mode_of st') (depth st') (scanned t (i + 1))")
          (simp_all add: algebra_simps)
    qed
  qed
qed

lemma step_keeps_positive:
  assumes "1 \<le> d" "\<not> (m = Code \<and> c = RBRACKET \<and> d - 1 = 0)"
  shows "1 \<le> d + bracket_step m c"
  using assms by (auto simp: bracket_step_def)

lemma first_close_Some:
  "1 \<le> d \<Longrightarrow> first_close m d cs = Some n \<Longrightarrow>
     0 < n \<and> n \<le> length cs \<and> d + depth_from m (take n cs) = 0
     \<and> (\<forall>j<n. 0 < d + depth_from m (take j cs))
     \<and> cs ! (n - 1) = RBRACKET \<and> mode_after m (take (n - 1) cs) = Code"
proof (induction cs arbitrary: m d n)
  case Nil
  then show ?case by simp
next
  case (Cons c cs)
  show ?case
  proof (cases "m = Code \<and> c = RBRACKET \<and> d - 1 = 0")
    case True
    then have "n = 1" using Cons.prems(2) by simp
    then show ?thesis using True Cons.prems(1) by (simp add: bracket_step_def char_defs)
  next
    case False
    then obtain n' where n': "first_close (next_mode m c) (d + bracket_step m c) cs = Some n'"
      and n: "n = Suc n'"
      using Cons.prems(2) by (auto simp del: next_mode.simps)
    have pos: "1 \<le> d + bracket_step m c" by (rule step_keeps_positive [OF Cons.prems(1) False])
    note ih = Cons.IH [OF pos n']
    have "\<forall>j<n. 0 < d + depth_from m (take j (c # cs))"
    proof (intro allI impI)
      fix j assume "j < n"
      show "0 < d + depth_from m (take j (c # cs))"
      proof (cases j)
        case 0
        then show ?thesis using Cons.prems(1) by simp
      next
        case (Suc j')
        then have "j' < n'" using \<open>j < n\<close> n by simp
        then have "0 < d + bracket_step m c + depth_from (next_mode m c) (take j' cs)"
          using ih by blast
        then show ?thesis using Suc by (simp add: add.assoc)
      qed
    qed
    moreover have "(c # cs) ! (n - 1) = RBRACKET \<and> mode_after m (take (n - 1) (c # cs)) = Code"
    proof -
      from ih have "0 < n'" by blast
      then obtain k where k: "n' = Suc k" by (cases n') auto
      then show ?thesis using ih n by simp
    qed
    moreover have "d + depth_from m (take n (c # cs)) = 0" using ih n by (simp add: add.assoc)
    ultimately show ?thesis using ih n by simp
  qed
qed

lemma first_close_None:
  "1 \<le> d \<Longrightarrow> first_close m d cs = None \<Longrightarrow> 0 < d + depth_from m (take j cs)"
proof (induction cs arbitrary: m d j)
  case Nil
  then show ?case by simp
next
  case (Cons c cs)
  have nr: "\<not> (m = Code \<and> c = RBRACKET \<and> d - 1 = 0)"
    using Cons.prems(2) by (auto split: if_splits)
  then have rest: "first_close (next_mode m c) (d + bracket_step m c) cs = None"
    using Cons.prems(2) by (auto simp del: next_mode.simps)
  have pos: "1 \<le> d + bracket_step m c" by (rule step_keeps_positive [OF Cons.prems(1) nr])
  show ?case
  proof (cases j)
    case 0
    then show ?thesis using Cons.prems(1) by simp
  next
    case (Suc j')
    have "0 < d + bracket_step m c + depth_from (next_mode m c) (take j' cs)"
      by (rule Cons.IH [OF pos rest])
    then show ?thesis using Suc by (simp add: add.assoc)
  qed
qed

lemma first_close_open:
  "first_close Code 0 (LBRACKET # rest) = map_option Suc (first_close Code 1 rest)"
  by (simp add: bracket_step_def char_defs)

lemma bracket_depth_open:
  "bracket_depth (take (Suc j) (LBRACKET # rest)) = 1 + depth_from Code (take j rest)"
  by (simp add: bracket_depth_def bracket_step_def char_defs)

lemma closes_at_unique: "closes_at cs n \<Longrightarrow> closes_at cs n' \<Longrightarrow> n = n'"
proof (rule ccontr)
  assume a: "closes_at cs n" "closes_at cs n'" "n \<noteq> n'"
  then consider "n < n'" | "n' < n" by linarith
  then show False
  proof cases
    case 1
    then have "n \<in> {1..<n'}" using a(1) by (simp add: closes_at_def)
    then show False using a(1,2) unfolding closes_at_def by blast
  next
    case 2
    then have "n' \<in> {1..<n}" using a(2) by (simp add: closes_at_def)
    then show False using a(1,2) unfolding closes_at_def by blast
  qed
qed

lemma first_close_closes_at:
  assumes "first_close Code 0 (LBRACKET # rest) = Some n"
  shows "closes_at (LBRACKET # rest) n" "(LBRACKET # rest) ! (n - 1) = RBRACKET"
    "mode_after Code (take (n - 1) (LBRACKET # rest)) = Code"
proof -
  from assms obtain k where k: "first_close Code 1 rest = Some k" and n: "n = Suc k"
    unfolding first_close_open by auto
  note f = first_close_Some [OF _ k, simplified]
  have "\<forall>j \<in> {1..<n}. bracket_depth (take j (LBRACKET # rest)) \<noteq> 0"
  proof
    fix j assume "j \<in> {1..<n}"
    then have j: "0 < j \<and> j < n" by simp
    then obtain j' where j': "j = Suc j'" by (cases j) auto
    then have "j' < k" using j n by simp
    then have "0 < 1 + depth_from Code (take j' rest)" using f by blast
    then show "bracket_depth (take j (LBRACKET # rest)) \<noteq> 0"
      unfolding j' bracket_depth_open by simp
  qed
  moreover have "bracket_depth (take n (LBRACKET # rest)) = 0"
    unfolding n bracket_depth_open using f by simp
  ultimately show "closes_at (LBRACKET # rest) n"
    using f n by (simp add: closes_at_def)
  obtain k' where k': "k = Suc k'" using f by (cases k) auto
  show "(LBRACKET # rest) ! (n - 1) = RBRACKET" using f n k' by simp
  show "mode_after Code (take (n - 1) (LBRACKET # rest)) = Code"
    using f n k' by (simp add: char_defs)
qed

lemma first_close_never:
  assumes "first_close Code 0 (LBRACKET # rest) = None" "0 < j"
  shows "0 < bracket_depth (take j (LBRACKET # rest))"
proof -
  from assms(1) have k: "first_close Code 1 rest = None"
    unfolding first_close_open by simp
  obtain j' where j': "j = Suc j'" using assms(2) by (cases j) auto
  have "0 < 1 + depth_from Code (take j' rest)"
    by (rule first_close_None [OF _ k]) simp
  then show ?thesis unfolding j' bracket_depth_open .
qed


lemma initial_state_facts:
  "wf_state initial_state" "mode_of initial_state = Code" "depth initial_state = 0"
  by (simp_all add: initial_state_def wf_state_def mode_of_def)

lemma extract_js_array_scanned:
  assumes "- int (length t) \<le> start" "start < int (length t)"
    and "py_index t start = Inr LBRACKET"
  shows "extract_js_array t start =
     (case first_close Code 0 (scanned t start) of
        None \<Rightarrow> Inl UnterminatedArray
      | Some k \<Rightarrow> Inr (py_slice t start (start + int k)))"
    and "\<exists>rest. scanned t start = LBRACKET # rest"
proof -
  show "extract_js_array t start =
     (case first_close Code 0 (scanned t start) of
        None \<Rightarrow> Inl UnterminatedArray
      | Some k \<Rightarrow> Inr (py_slice t start (start + int k)))"
    using scan_loop_scanned [OF initial_state_facts(1) assms(1), of start] assms(3)
    by (simp add: extract_js_array_def initial_state_facts)
  show "\<exists>rest. scanned t start = LBRACKET # rest"
    using scanned_step [OF assms(1,2)] assms(3) by auto
qed

lemma sublist_py_slice: "sublist (py_slice xs a b) xs"
proof -
  let ?a = "slice_bound xs a" and ?k = "slice_bound xs b - slice_bound xs a"
  have "drop ?a xs = take ?k (drop ?a xs) @ drop ?k (drop ?a xs)"
    by (simp only: append_take_drop_id)
  then have "xs = take ?a xs @ py_slice xs a b @ drop ?k (drop ?a xs)"
    unfolding py_slice_def by (metis append_take_drop_id)
  then show ?thesis unfolding sublist_def by blast
qed

lemma py_slice_nat:
  "s + n \<le> length xs \<Longrightarrow> py_slice xs (int s) (int s + int n) = take n (drop s xs)"
  by (simp add: py_slice_def slice_bound_def nat_add_distrib)

lemma scanned_nat: "scanned t (int s) = drop s t"
  by (simp add: scanned_def)

lemma never_closes_iff:
  "never_closes (LBRACKET # rest) \<longleftrightarrow> first_close Code 0 (LBRACKET # rest) = None"
proof
  assume nc: "never_closes (LBRACKET # rest)"
  show "first_close Code 0 (LBRACKET # rest) = None"
  proof (cases "first_close Code 0 (LBRACKET # rest)")
    case (Some n)
    from first_close_closes_at(1) [OF Some]
    have "n \<in> {1..length (LBRACKET # rest)}" "bracket_depth (take n (LBRACKET # rest)) = 0"
      by (simp_all add: closes_at_def)
    then show ?thesis using nc unfolding never_closes_def by blast
  qed simp
next
  assume none: "first_close Code 0 (LBRACKET # rest) = None"
  show "never_closes (LBRACKET # rest)"
    unfolding never_closes_def
  proof
    fix n assume "n \<in> {1..length (LBRACKET # rest)}"
    then have "0 < n" by simp
    from first_close_never [OF none this]
    show "bracket_depth (take n (LBRACKET # rest)) \<noteq> 0" by simp
  qed
qed

lemma closes_at_iff:
  "closes_at (LBRACKET # rest) n \<longleftrightarrow> first_close Code 0 (LBRACKET # rest) = Some n"
proof
  assume c: "closes_at (LBRACKET # rest) n"
  then have "n \<in> {1..length (LBRACKET # rest)}" "bracket_depth (take n (LBRACKET # rest)) = 0"
    by (simp_all add: closes_at_def)
  then have "\<not> never_closes (LBRACKET # rest)" unfolding never_closes_def by blast
  then obtain k where k: "first_close Code 0 (LBRACKET # rest) = Some k"
    unfolding never_closes_iff by blast
  from closes_at_unique [OF first_close_closes_at(1) [OF k] c] k
  show "first_close Code 0 (LBRACKET # rest) = Some n" by simp
next
  assume "first_close Code 0 (LBRACKET # rest) = Some n"
  then show "closes_at (LBRACKET # rest) n" by (rule first_close_closes_at(1))
qed

lemma never_closes_eval:
  "cs \<noteq> [] \<Longrightarrow> hd cs = LBRACKET \<Longrightarrow> never_closes cs \<longleftrightarrow> first_close Code 0 cs = None"
  by (cases cs) (simp_all add: never_closes_iff)

lemma closes_at_eval:
  "cs \<noteq> [] \<Longrightarrow> hd cs = LBRACKET \<Longrightarrow> closes_at cs n \<longleftrightarrow> first_close Code 0 cs = Some n"
  by (cases cs) (simp_all add: closes_at_iff)

lemmas scan_eval = scanned_def bracket_step_def char_defs


lemma first_close_bound: "first_close m d cs = Some k \<Longrightarrow> 0 < k \<and> k \<le> length cs"
proof (induction cs arbitrary: m d k)
  case Nil
  then show ?case by simp
next
  case (Cons c cs)
  show ?case
  proof (cases "m = Code \<and> c = RBRACKET \<and> d - 1 = 0")
    case True
    then show ?thesis using Cons.prems by simp
  next
    case False
    then obtain k' where "first_close (next_mode m c) (d + bracket_step m c) cs = Some k'"
      "k = Suc k'"
      using Cons.prems by (auto simp del: next_mode.simps)
    then show ?thesis using Cons.IH by fastforce
  qed
qed

lemma first_close_Cons_else:
  "\<not> (m = Code \<and> c = RBRACKET \<and> d - 1 = 0) \<Longrightarrow>
   first_close m d (c # cs) =
     map_option Suc (first_close (next_mode m c) (d + bracket_step m c) cs)"
  by (simp only: first_close.simps if_False)

lemma first_close_append:
  "first_close m d (xs @ ys) =
     (case first_close m d xs of
        Some k \<Rightarrow> Some k
      | None \<Rightarrow> map_option (\<lambda>k. k + length xs)
                 (first_close (mode_after m xs) (d + depth_from m xs) ys))"
proof (induction xs arbitrary: m d)
  case Nil
  show ?case by (cases "first_close m d ys") simp_all
next
  case (Cons c xs)
  show ?case
  proof (cases "m = Code \<and> c = RBRACKET \<and> d - 1 = 0")
    case True
    then show ?thesis by simp
  next
    case False
    let ?m = "next_mode m c" and ?d = "d + bracket_step m c"
    have l: "first_close m d ((c # xs) @ ys) = map_option Suc (first_close ?m ?d (xs @ ys))"
      using first_close_Cons_else [OF False] by simp
    have r: "first_close m d (c # xs) = map_option Suc (first_close ?m ?d xs)"
      by (rule first_close_Cons_else [OF False])
    show ?thesis unfolding l r Cons.IH
      by (cases "first_close ?m ?d xs")
        (simp_all add: option.map_comp comp_def add.assoc del: next_mode.simps)
  qed
qed

lemma escaped_quote_in_string:
  "mode_after (Str q) [BACKSLASH, q] = Str q"
  "depth_from (Str q) [BACKSLASH, q] = 0"
  "first_close (Str q) d [BACKSLASH, q] = None"
  by (simp_all add: bracket_step_def)

lemma first_close_insert:
  assumes "mode_after m a = Str q"
  shows "first_close m d (a @ [BACKSLASH, q] @ b) =
     map_option (\<lambda>k. if k \<le> length a then k else k + 2) (first_close m d (a @ b))"
proof (cases "first_close m d a")
  case (Some k)
  then have "k \<le> length a" using first_close_bound by blast
  then show ?thesis using Some by (simp add: first_close_append)
next
  case None
  let ?d = "d + depth_from m a"
  have "first_close (Str q) ?d ([BACKSLASH, q] @ b) =
      map_option (\<lambda>k. k + 2) (first_close (Str q) ?d b)"
    by (subst first_close_append, cases "first_close (Str q) ?d b")
      (simp_all add: escaped_quote_in_string bracket_step_def)
  then show ?thesis using None assms
    by (cases "first_close (Str q) ?d b")
      (auto simp add: first_close_append [of m d a] simp del: first_close.simps
        dest: first_close_bound)
qed

lemma extract_js_array_nat:
  assumes "s < length t" "t ! s = LBRACKET"
  shows "extract_js_array t (int s) =
     (case first_close Code 0 (drop s t) of
        None \<Rightarrow> Inl UnterminatedArray
      | Some k \<Rightarrow> Inr (take k (drop s t)))"
proof -
  have r: "- int (length t) \<le> int s" "int s < int (length t)" "py_index t (int s) = Inr LBRACKET"
    using assms by (simp_all add: py_index_def)
  note e = extract_js_array_scanned(1) [OF r, unfolded scanned_nat]
  show ?thesis
  proof (cases "first_close Code 0 (drop s t)")
    case None
    then show ?thesis using e by simp
  next
    case (Some k)
    then have "s + k \<le> length t" using first_close_bound [OF Some] assms(1) by auto
    then show ?thesis using e Some py_slice_nat by simp
  qed
qed

lemma extract_js_array_eval:
  "t \<noteq> [] \<Longrightarrow> hd t = LBRACKET \<Longrightarrow>
   extract_js_array t 0 =
     (case first_close Code 0 t of
        None \<Rightarrow> Inl UnterminatedArray
      | Some k \<Rightarrow> Inr (take k t))"
proof -
  assume "t \<noteq> []" "hd t = LBRACKET"
  then have "0 < length t" "t ! 0 = LBRACKET" by (simp_all add: hd_conv_nth)
  from extract_js_array_nat [OF this] show ?thesis by (simp only: drop_0 of_nat_0)
qed


lemma find_at_cases:
  "(find_at sub cs i = - 1 \<and> (\<forall>j \<le> length cs. \<not> prefix sub (drop j cs)))
   \<or> (\<exists>j \<le> length cs. find_at sub cs i = int (i + j) \<and> prefix sub (drop j cs)
         \<and> (\<forall>k<j. \<not> prefix sub (drop k cs)))"
proof (induction cs arbitrary: i)
  case Nil
  then show ?case by auto
next
  case (Cons c cs)
  show ?case
  proof (cases "prefix sub (c # cs)")
    case True
    then have "find_at sub (c # cs) i = int (i + 0) \<and> prefix sub (drop 0 (c # cs))
        \<and> (\<forall>k<0. \<not> prefix sub (drop k (c # cs)))" by simp
    then show ?thesis by blast
  next
    case False
    then have step: "find_at sub (c # cs) i = find_at sub cs (Suc i)" by simp
    from Cons.IH [of "Suc i"] show ?thesis
    proof
      assume a: "find_at sub cs (Suc i) = - 1 \<and> (\<forall>j \<le> length cs. \<not> prefix sub (drop j cs))"
      have "\<forall>j \<le> length (c # cs). \<not> prefix sub (drop j (c # cs))"
      proof (intro allI impI)
        fix j assume "j \<le> length (c # cs)"
        then show "\<not> prefix sub (drop j (c # cs))"
          using a False by (cases j) auto
      qed
      then show ?thesis using a step by simp
    next
      assume "\<exists>j \<le> length cs. find_at sub cs (Suc i) = int (Suc i + j)
          \<and> prefix sub (drop j cs) \<and> (\<forall>k<j. \<not> prefix sub (drop k cs))"
      then obtain j where j: "j \<le> length cs" "find_at sub cs (Suc i) = int (Suc i + j)"
        "prefix sub (drop j cs)" "\<forall>k<j. \<not> prefix sub (drop k cs)" by blast
      have "\<forall>k<Suc j. \<not> prefix sub (drop k (c # cs))"
      proof (intro allI impI)
        fix k assume "k < Suc j"
        then show "\<not> prefix sub (drop k (c # cs))"
          using j(4) False by (cases k) auto
      qed
      then have "Suc j \<le> length (c # cs) \<and> find_at sub (c # cs) i = int (i + Suc j)
          \<and> prefix sub (drop (Suc j) (c # cs)) \<and> (\<forall>k<Suc j. \<not> prefix sub (drop k (c # cs)))"
        using j step by simp
      then show ?thesis by blast
    qed
  qed
qed

lemma py_find_nat: "p \<le> length s \<Longrightarrow> py_find s sub (int p) = find_at sub (drop p s) p"
  by (simp add: py_find_def slice_bound_def)

lemma py_find_cases:
  assumes "p \<le> length s"
  shows "(py_find s sub (int p) = - 1 \<and> (\<forall>c\<ge>p. \<not> occurs_at sub s c))
     \<or> (\<exists>c. py_find s sub (int p) = int c \<and> first_from sub s p c)"
  using find_at_cases [of sub "drop p s" p]
proof
  assume a: "find_at sub (drop p s) p = - 1
      \<and> (\<forall>j \<le> length (drop p s). \<not> prefix sub (drop j (drop p s)))"
  have "\<forall>c\<ge>p. \<not> occurs_at sub s c"
  proof (intro allI impI)
    fix c assume c: "p \<le> c"
    show "\<not> occurs_at sub s c"
    proof
      assume o: "occurs_at sub s c"
      then have "c - p \<le> length (drop p s)" "drop (c - p) (drop p s) = drop c s"
        using c by (auto simp add: occurs_at_def)
      then show False using a o by (metis occurs_at_def)
    qed
  qed
  then show ?thesis using a py_find_nat [OF assms] by simp
next
  assume "\<exists>j \<le> length (drop p s). find_at sub (drop p s) p = int (p + j)
      \<and> prefix sub (drop j (drop p s)) \<and> (\<forall>k<j. \<not> prefix sub (drop k (drop p s)))"
  then obtain j where j: "j \<le> length (drop p s)" "find_at sub (drop p s) p = int (p + j)"
    "prefix sub (drop j (drop p s))" "\<forall>k<j. \<not> prefix sub (drop k (drop p s))" by blast
  have "\<forall>i \<in> {p..<p + j}. \<not> occurs_at sub s i"
  proof
    fix i assume "i \<in> {p..<p + j}"
    then have "i - p < j" "drop (i - p) (drop p s) = drop i s" by auto
    then show "\<not> occurs_at sub s i" using j(4) by (metis occurs_at_def)
  qed
  moreover have "occurs_at sub s (p + j)"
    using j(1,3) assms by (simp add: occurs_at_def add.commute)
  ultimately have "first_from sub s p (p + j)" by (simp add: first_from_def)
  moreover have "py_find s sub (int p) = int (p + j)"
    using j(2) py_find_nat [OF assms] by simp
  ultimately show ?thesis by blast
qed

lemma first_from_unique: "first_from sub s p c \<Longrightarrow> first_from sub s p c' \<Longrightarrow> c = c'"
proof (rule ccontr)
  assume a: "first_from sub s p c" "first_from sub s p c'" "c \<noteq> c'"
  then consider "c < c'" | "c' < c" by linarith
  then show False
  proof cases
    case 1
    then have "c \<in> {p..<c'}" using a(1) by (simp add: first_from_def)
    then show False using a(1,2) unfolding first_from_def by blast
  next
    case 2
    then have "c' \<in> {p..<c}" using a(2) by (simp add: first_from_def)
    then show False using a(1,2) unfolding first_from_def by blast
  qed
qed

lemma py_find_absent:
  "p \<le> length s \<Longrightarrow> \<forall>c\<ge>p. \<not> occurs_at sub s c \<Longrightarrow> py_find s sub (int p) = - 1"
  using py_find_cases [of p s sub] by (auto simp: first_from_def)

lemma py_find_first:
  assumes "p \<le> length s" "first_from sub s p c"
  shows "py_find s sub (int p) = int c"
  using py_find_cases [OF assms(1), of sub]
proof
  assume "py_find s sub (int p) = - 1 \<and> (\<forall>c\<ge>p. \<not> occurs_at sub s c)"
  then show ?thesis using assms(2) by (auto simp: first_from_def)
next
  assume "\<exists>c. py_find s sub (int p) = int c \<and> first_from sub s p c"
  then show ?thesis using first_from_unique [OF assms(2)] by auto
qed

lemma re_search_lbracket_cases:
  "(re_search_lbracket cs = None \<and> LBRACKET \<notin> set cs)
   \<or> (\<exists>j < length cs. re_search_lbracket cs = Some j \<and> cs ! j = LBRACKET
         \<and> (\<forall>k<j. cs ! k \<noteq> LBRACKET))"
proof (induction cs)
  case Nil
  then show ?case by simp
next
  case (Cons c cs)
  show ?case
  proof (cases "c = LBRACKET")
    case True
    then show ?thesis by simp
  next
    case False
    from Cons.IH show ?thesis
    proof
      assume "re_search_lbracket cs = None \<and> LBRACKET \<notin> set cs"
      then show ?thesis using False by simp
    next
      assume "\<exists>j < length cs. re_search_lbracket cs = Some j \<and> cs ! j = LBRACKET
          \<and> (\<forall>k<j. cs ! k \<noteq> LBRACKET)"
      then obtain j where j: "j < length cs" "re_search_lbracket cs = Some j"
        "cs ! j = LBRACKET" "\<forall>k<j. cs ! k \<noteq> LBRACKET" by blast
      have "\<forall>k<Suc j. (c # cs) ! k \<noteq> LBRACKET"
      proof (intro allI impI)
        fix k assume "k < Suc j"
        then show "(c # cs) ! k \<noteq> LBRACKET" using j(4) False by (cases k) auto
      qed
      then have "Suc j < length (c # cs) \<and> re_search_lbracket (c # cs) = Some (Suc j)
          \<and> (c # cs) ! Suc j = LBRACKET \<and> (\<forall>k<Suc j. (c # cs) ! k \<noteq> LBRACKET)"
        using j False by simp
      then show ?thesis by blast
    qed
  qed
qed

lemma occurs_at_single: "occurs_at [x] s p \<longleftrightarrow> p < length s \<and> s ! p = x"
proof (cases "p < length s")
  case True
  then have "drop p s = s ! p # drop (Suc p) s" by (simp add: Cons_nth_drop_Suc)
  then show ?thesis using True by (auto simp add: occurs_at_def)
next
  case False
  then show ?thesis by (simp add: occurs_at_def)
qed


lemma py_slice_from_nat: "c \<le> length s \<Longrightarrow> py_slice_from s (int c) = drop c s"
  by (simp add: py_slice_from_def slice_bound_def)

lemma re_search_lbracket_absent:
  assumes "\<not> (\<exists>b\<ge>c. occurs_at [LBRACKET] s b)"
  shows "re_search_lbracket (drop c s) = None"
  using re_search_lbracket_cases [of "drop c s"]
proof
  assume "\<exists>j < length (drop c s). re_search_lbracket (drop c s) = Some j
      \<and> drop c s ! j = LBRACKET \<and> (\<forall>k<j. drop c s ! k \<noteq> LBRACKET)"
  then obtain j where j: "j < length (drop c s)" "drop c s ! j = LBRACKET" by blast
  then have "c + j < length s" "s ! (c + j) = LBRACKET" by simp_all
  then have "occurs_at [LBRACKET] s (c + j)" by (simp add: occurs_at_single)
  then show ?thesis using assms by (metis le_add1)
qed simp

lemma re_search_lbracket_first:
  assumes "first_from [LBRACKET] s c b"
  shows "re_search_lbracket (drop c s) = Some (b - c)"
  using re_search_lbracket_cases [of "drop c s"]
proof
  assume "re_search_lbracket (drop c s) = None \<and> LBRACKET \<notin> set (drop c s)"
  moreover have "b - c < length (drop c s)" "drop c s ! (b - c) = LBRACKET"
    using assms by (auto simp: first_from_def occurs_at_single)
  ultimately show ?thesis by (metis nth_mem)
next
  assume "\<exists>j < length (drop c s). re_search_lbracket (drop c s) = Some j
      \<and> drop c s ! j = LBRACKET \<and> (\<forall>k<j. drop c s ! k \<noteq> LBRACKET)"
  then obtain j where j: "j < length (drop c s)" "re_search_lbracket (drop c s) = Some j"
    "drop c s ! j = LBRACKET" "\<forall>k<j. drop c s ! k \<noteq> LBRACKET" by blast
  have "\<forall>i \<in> {c..<c + j}. \<not> occurs_at [LBRACKET] s i"
  proof
    fix i assume i: "i \<in> {c..<c + j}"
    then have "i - c < j" "i < length s" using j(1) by auto
    then have "drop c s ! (i - c) \<noteq> LBRACKET" using j(4) by blast
    moreover have "drop c s ! (i - c) = s ! i" using i j(1) by simp
    ultimately show "\<not> occurs_at [LBRACKET] s i" by (simp add: occurs_at_single)
  qed
  moreover have "occurs_at [LBRACKET] s (c + j)"
    using j(1,3) by (simp add: occurs_at_single)
  ultimately have "first_from [LBRACKET] s c (c + j)" by (simp add: first_from_def)
  from first_from_unique [OF assms this] show ?thesis using j(2) by simp
qed

lemma first_from_eval:
  "p \<le> length s \<Longrightarrow> first_from sub s p c \<longleftrightarrow> py_find s sub (int p) = int c"
  using py_find_cases [of p s sub] py_find_first [of p s sub c] by auto

lemma absent_eval:
  "p \<le> length s \<Longrightarrow> \<not> (\<exists>c\<ge>p. occurs_at sub s c) \<longleftrightarrow> py_find s sub (int p) = - 1"
  using py_find_cases [of p s sub] py_find_absent [of p s sub] by auto


lemma hyphen_not_alnum: "\<not> is_slug_alnum HYPHEN"
  by (simp add: is_slug_alnum_def HYPHEN_def)

lemma alnum_not_space: "is_slug_alnum c \<Longrightarrow> \<not> is_space c"
  by (auto simp: is_slug_alnum_def is_space_def)

lemma dropWhile_id: "s = [] \<or> \<not> P (hd s) \<Longrightarrow> dropWhile P s = s"
  by (cases s) auto

lemma strip_chars_id:
  assumes "s = [] \<or> (\<not> P (hd s) \<and> \<not> P (last s))"
  shows "strip_chars P s = s"
proof (cases "s = []")
  case True
  then show ?thesis by (simp add: strip_chars_def)
next
  case False
  then have "dropWhile P s = s" "dropWhile P (rev s) = rev s"
    using assms by (auto intro!: dropWhile_id simp: hd_rev)
  then show ?thesis by (simp add: strip_chars_def)
qed

lemma strip_chars_ends:
  "strip_chars P s = [] \<or> (\<not> P (hd (strip_chars P s)) \<and> \<not> P (last (strip_chars P s)))"
proof (cases "strip_chars P s = []")
  case False
  let ?d = "dropWhile P s" and ?r = "dropWhile P (rev (dropWhile P s))"
  have r: "?r \<noteq> []" using False by (simp add: strip_chars_def)
  then have l: "\<not> P (hd ?r)" by (rule hd_dropWhile)
  have "last (strip_chars P s) = hd ?r" using r by (simp add: strip_chars_def last_rev)
  then have a: "\<not> P (last (strip_chars P s))" using l by simp
  have d: "?d \<noteq> []"
  proof
    assume "?d = []"
    then have "?r = dropWhile P (rev [])" by (simp only:)
    with r show False by simp
  qed
  then have hd: "\<not> P (hd ?d)" by (rule hd_dropWhile)
  have "rev ?d = takeWhile P (rev ?d) @ ?r" by simp
  then have "?d = rev ?r @ rev (takeWhile P (rev ?d))" by (metis rev_append rev_rev_ident)
  then have "hd ?d = hd (rev ?r)" using r by (metis hd_append2 rev_is_Nil_conv)
  then have "\<not> P (hd (strip_chars P s))" using hd by (simp add: strip_chars_def)
  then show ?thesis using a by blast
qed simp

lemma strip_chars_decomp: "\<exists>a b. s = a @ strip_chars P s @ b"
proof -
  let ?d = "dropWhile P s"
  have 1: "s = takeWhile P s @ ?d" by simp
  have "rev ?d = takeWhile P (rev ?d) @ dropWhile P (rev ?d)" by simp
  then have "?d = strip_chars P s @ rev (takeWhile P (rev ?d))"
    unfolding strip_chars_def by (metis rev_append rev_rev_ident)
  then show ?thesis using 1 by metis
qed

lemma no_double_hyphen_Cons: "no_double_hyphen (a # cs) \<Longrightarrow> no_double_hyphen cs"
  by (cases cs) auto

lemma no_double_hyphen_append:
  "no_double_hyphen (a @ b) \<Longrightarrow> no_double_hyphen a \<and> no_double_hyphen b"
proof (induction a)
  case Nil
  then show ?case by simp
next
  case (Cons x xs)
  have "no_double_hyphen (xs @ b)" using Cons.prems no_double_hyphen_Cons by simp
  then have ih: "no_double_hyphen xs" "no_double_hyphen b" using Cons.IH by simp_all
  have "no_double_hyphen (x # xs)" using Cons.prems ih(1) by (cases xs) simp_all
  then show ?case using ih(2) by simp
qed

lemma sub_non_alnum_chars: "\<forall>c \<in> set (sub_non_alnum s). slug_char c"
  by (induction s rule: sub_non_alnum.induct) (auto simp: sub_non_alnum.simps slug_char_def)

lemma sub_non_alnum_hd:
  "s \<noteq> [] \<Longrightarrow> is_slug_alnum (hd s) \<Longrightarrow> sub_non_alnum s \<noteq> [] \<and> hd (sub_non_alnum s) = hd s"
  by (cases s) (auto simp: sub_non_alnum.simps)

lemma sub_non_alnum_no_double: "no_double_hyphen (sub_non_alnum s)"
proof (induction s rule: sub_non_alnum.induct)
  case 1
  then show ?case by (simp add: sub_non_alnum.simps)
next
  case (2 c cs)
  show ?case
  proof (cases "is_slug_alnum c")
    case True
    then have e: "sub_non_alnum (c # cs) = c # sub_non_alnum cs"
      by (simp add: sub_non_alnum.simps)
    have "c \<noteq> HYPHEN" using True hyphen_not_alnum by auto
    then show ?thesis unfolding e using 2(1) [OF True]
      by (cases "sub_non_alnum cs") auto
  next
    case False
    let ?d = "dropWhile (\<lambda>x. \<not> is_slug_alnum x) cs"
    have e: "sub_non_alnum (c # cs) = HYPHEN # sub_non_alnum ?d"
      using False by (simp add: sub_non_alnum.simps)
    note ih = 2(2) [OF False]
    show ?thesis
    proof (cases "?d = []")
      case True
      show ?thesis unfolding e True by (simp add: sub_non_alnum.simps)
    next
      case nonempty: False
      then have "is_slug_alnum (hd ?d)" using hd_dropWhile [OF nonempty] by simp
      from sub_non_alnum_hd [OF nonempty this]
      obtain y ys where y: "sub_non_alnum ?d = y # ys" "y = hd ?d"
        by (cases "sub_non_alnum ?d") auto
      then have "y \<noteq> HYPHEN" using \<open>is_slug_alnum (hd ?d)\<close> hyphen_not_alnum by auto
      then show ?thesis unfolding e using ih y by simp
    qed
  qed
qed

lemma sub_non_alnum_id:
  "\<forall>c \<in> set s. slug_char c \<Longrightarrow> no_double_hyphen s \<Longrightarrow> sub_non_alnum s = s"
proof (induction s rule: sub_non_alnum.induct)
  case 1
  then show ?case by (simp add: sub_non_alnum.simps)
next
  case (2 c cs)
  have nd: "no_double_hyphen cs" using 2(4) by (rule no_double_hyphen_Cons)
  show ?case
  proof (cases "is_slug_alnum c")
    case True
    then show ?thesis using 2(1) [OF True] 2(3) nd by (simp add: sub_non_alnum.simps)
  next
    case False
    then have c: "c = HYPHEN" using 2(3) by (simp add: slug_char_def)
    have "cs = [] \<or> is_slug_alnum (hd cs)"
    proof (cases cs)
      case (Cons d ds)
      then have "d \<noteq> HYPHEN" using 2(4) c by simp
      moreover have "slug_char d" using 2(3) Cons by simp
      ultimately show ?thesis using Cons by (simp add: slug_char_def)
    qed simp
    then have d: "dropWhile (\<lambda>x. \<not> is_slug_alnum x) cs = cs" by (intro dropWhile_id) auto
    show ?thesis using 2(2) [OF False] 2(3) nd False c d by (simp add: sub_non_alnum.simps)
  qed
qed

lemma collapse_hyphens_id: "no_double_hyphen s \<Longrightarrow> collapse_hyphens s = s"
proof (induction s)
  case Nil
  then show ?case by (simp add: collapse_hyphens.simps)
next
  case (Cons c cs)
  have "\<not> (c = HYPHEN \<and> cs \<noteq> [] \<and> hd cs = HYPHEN)"
    using Cons.prems by (cases cs) auto
  then have "collapse_hyphens (c # cs) = c # collapse_hyphens cs"
    by (subst collapse_hyphens.simps) (simp only: if_False)
  then show ?case using Cons.IH no_double_hyphen_Cons [OF Cons.prems] by simp
qed

lemma normalize_slug_shape: "slug_shape (normalize_slug L s)"
proof -
  let ?u = "sub_non_alnum (str_lower L (strip_chars is_space s))"
  have c: "collapse_hyphens ?u = ?u" by (rule collapse_hyphens_id [OF sub_non_alnum_no_double])
  have n: "normalize_slug L s = strip_chars (\<lambda>c. c = HYPHEN) ?u"
    by (simp add: normalize_slug_def c)
  obtain a b where ab: "?u = a @ normalize_slug L s @ b"
    using strip_chars_decomp [of ?u "\<lambda>c. c = HYPHEN"] n by metis
  have "\<forall>c \<in> set ?u. slug_char c" by (rule sub_non_alnum_chars)
  then have 1: "\<forall>c \<in> set (normalize_slug L s). slug_char c"
    by (subst (asm) ab) auto
  have "no_double_hyphen (a @ normalize_slug L s @ b)"
    using sub_non_alnum_no_double [of "str_lower L (strip_chars is_space s)"] ab by simp
  then have 2: "no_double_hyphen (normalize_slug L s)"
    using no_double_hyphen_append by blast
  have 3: "normalize_slug L s = []
      \<or> (hd (normalize_slug L s) \<noteq> HYPHEN \<and> last (normalize_slug L s) \<noteq> HYPHEN)"
    unfolding n using strip_chars_ends [of "\<lambda>c. c = HYPHEN" ?u] by simp
  show ?thesis unfolding slug_shape_def using 1 2 3 by blast
qed

lemma normalize_slug_fixpoint:
  assumes "lower_keeps_slugs L" "slug_shape t"
  shows "normalize_slug L t = t"
proof -
  have chars: "\<forall>c \<in> set t. slug_char c" and nd: "no_double_hyphen t"
    and ends: "t = [] \<or> (hd t \<noteq> HYPHEN \<and> last t \<noteq> HYPHEN)"
    using assms(2) by (simp_all add: slug_shape_def)
  have "t = [] \<or> (\<not> is_space (hd t) \<and> \<not> is_space (last t))"
  proof (cases "t = []")
    case False
    then have "slug_char (hd t)" "slug_char (last t)" using chars by simp_all
    then show ?thesis using ends False alnum_not_space by (auto simp: slug_char_def)
  qed simp
  then have 1: "strip_chars is_space t = t" by (rule strip_chars_id)
  have 2: "str_lower L t = t"
    using assms(1) chars by (simp add: lower_keeps_slugs_def slug_char_def)
  have 3: "sub_non_alnum t = t" by (rule sub_non_alnum_id [OF chars nd])
  have 4: "collapse_hyphens t = t" by (rule collapse_hyphens_id [OF nd])
  have 5: "strip_chars (\<lambda>c. c = HYPHEN) t = t" using ends by (intro strip_chars_id) simp
  show ?thesis by (simp add: normalize_slug_def 1 2 3 4 5)
qed

lemma split_on_not_Nil: "split_on sep s \<noteq> []"
  by (induction s) (auto split: list.splits)

lemma slug_shape_pieces:
  assumes "t \<noteq> []" "\<forall>c \<in> set t. slug_char c" "no_double_hyphen t" "last t \<noteq> HYPHEN"
  shows "(\<forall>r \<in> set (tl (split_on HYPHEN t)). r \<noteq> [] \<and> (\<forall>c \<in> set r. is_slug_alnum c))
    \<and> (\<forall>c \<in> set (hd (split_on HYPHEN t)). is_slug_alnum c)
    \<and> (hd t \<noteq> HYPHEN \<longrightarrow> hd (split_on HYPHEN t) \<noteq> [])"
  using assms
proof (induction t)
  case Nil
  then show ?case by simp
next
  case (Cons c cs)
  show ?case
  proof (cases "cs = []")
    case True
    then have "c \<noteq> HYPHEN" using Cons.prems(4) by simp
    then have "is_slug_alnum c" using Cons.prems(2) by (simp add: slug_char_def)
    then show ?thesis using True \<open>c \<noteq> HYPHEN\<close> by simp
  next
    case False
    have ih: "(\<forall>r \<in> set (tl (split_on HYPHEN cs)). r \<noteq> [] \<and> (\<forall>c \<in> set r. is_slug_alnum c))
      \<and> (\<forall>c \<in> set (hd (split_on HYPHEN cs)). is_slug_alnum c)
      \<and> (hd cs \<noteq> HYPHEN \<longrightarrow> hd (split_on HYPHEN cs) \<noteq> [])"
      using Cons.IH [OF False] Cons.prems False no_double_hyphen_Cons by auto
    obtain r rs where rs: "split_on HYPHEN cs = r # rs"
      using split_on_not_Nil by (cases "split_on HYPHEN cs") auto
    show ?thesis
    proof (cases "c = HYPHEN")
      case True
      have "hd cs \<noteq> HYPHEN" using Cons.prems(3) True False by (cases cs) auto
      then show ?thesis using ih rs True by auto
    next
      case nh: False
      then have "is_slug_alnum c" using Cons.prems(2) by (simp add: slug_char_def)
      then show ?thesis using ih rs nh by auto
    qed
  qed
qed

lemma slug_shape_is_slug: "slug_shape t \<Longrightarrow> is_slug t"
proof (cases "t = []")
  case False
  assume s: "slug_shape t"
  then have p: "\<forall>c \<in> set t. slug_char c" "no_double_hyphen t" "last t \<noteq> HYPHEN"
    "hd t \<noteq> HYPHEN"
    using False by (simp_all add: slug_shape_def)
  note q = slug_shape_pieces [OF False p(1,2,3)]
  obtain r rs where rs: "split_on HYPHEN t = r # rs"
    using split_on_not_Nil by (cases "split_on HYPHEN t") auto
  show ?thesis unfolding is_slug_def using q p(4) rs by auto
qed (simp add: is_slug_def)

lemma ascii_lib_lower_keeps_slugs: "lower_keeps_slugs ascii_lib"
  unfolding lower_keeps_slugs_def
proof (intro allI impI)
  fix t assume "\<forall>c \<in> set t. is_slug_alnum c \<or> c = HYPHEN"
  then have "\<forall>c \<in> set t. ascii_lower c = c"
    by (auto simp: is_slug_alnum_def HYPHEN_def ascii_lower_def)
  then show "str_lower ascii_lib t = t" by (simp add: ascii_lib_def map_idI)
qed


lemma min_from_first_minimum:
  "i < length pre \<Longrightarrow> \<forall>j<length pre. key (pre ! i) \<le> key (pre ! j) \<Longrightarrow>
   \<forall>j<i. key (pre ! i) < key (pre ! j) \<Longrightarrow>
   \<exists>m<length (pre @ xs). min_from key (pre ! i) xs = (pre @ xs) ! m
      \<and> (\<forall>j<length (pre @ xs). key ((pre @ xs) ! m) \<le> key ((pre @ xs) ! j))
      \<and> (\<forall>j<m. key ((pre @ xs) ! m) < key ((pre @ xs) ! j))"
proof (induction xs arbitrary: pre i)
  case Nil
  then show ?case by auto
next
  case (Cons x xs)
  let ?pre = "pre @ [x]"
  have app: "?pre @ xs = pre @ x # xs" by simp
  show ?case
  proof (cases "key x < key (pre ! i)")
    case True
    have 1: "length pre < length ?pre" by simp
    have 2: "\<forall>j<length ?pre. key (?pre ! length pre) \<le> key (?pre ! j)"
    proof (intro allI impI)
      fix j assume "j < length ?pre"
      then consider "j < length pre" | "j = length pre" by fastforce
      then show "key (?pre ! length pre) \<le> key (?pre ! j)"
      proof cases
        case 1
        then have "key (pre ! i) \<le> key (pre ! j)" using Cons.prems(2) by blast
        then show ?thesis using True 1 by (simp add: nth_append)
      next
        case 2
        then show ?thesis by simp
      qed
    qed
    have 3: "\<forall>j<length pre. key (?pre ! length pre) < key (?pre ! j)"
    proof (intro allI impI)
      fix j assume j: "j < length pre"
      then have "key (pre ! i) \<le> key (pre ! j)" using Cons.prems(2) by blast
      then show "key (?pre ! length pre) < key (?pre ! j)" using True j by (simp add: nth_append)
    qed
    have "min_from key (pre ! i) (x # xs) = min_from key (?pre ! length pre) xs"
      using True by simp
    then show ?thesis using Cons.IH [OF 1 2 3] unfolding app by simp
  next
    case False
    have 1: "i < length ?pre" using Cons.prems(1) by simp
    have e: "?pre ! i = pre ! i" using Cons.prems(1) by (simp add: nth_append)
    have 2: "\<forall>j<length ?pre. key (?pre ! i) \<le> key (?pre ! j)"
    proof (intro allI impI)
      fix j assume "j < length ?pre"
      then consider "j < length pre" | "j = length pre" by fastforce
      then show "key (?pre ! i) \<le> key (?pre ! j)"
      proof cases
        case 1
        then show ?thesis using Cons.prems(2) e by (simp add: nth_append)
      next
        case 2
        then show ?thesis using False e by simp
      qed
    qed
    have 3: "\<forall>j<i. key (?pre ! i) < key (?pre ! j)"
      using Cons.prems(1,3) e by (simp add: nth_append)
    have "min_from key (pre ! i) (x # xs) = min_from key (?pre ! i) xs"
      using False e by simp
    then show ?thesis using Cons.IH [OF 1 2 3] unfolding app by simp
  qed
qed


subsection \<open>The span returned at a non-negative start\<close>

lemma extract_js_array_span_nat:
  assumes "s < length t" and "t ! s = LBRACKET" and "\<not> never_closes (drop s t)"
  shows "\<exists>n. closes_at (drop s t) n
           \<and> extract_js_array t (int s) = Inr (take n (drop s t))
           \<and> t ! (s + n - 1) = RBRACKET
           \<and> mode_after Code (take (n - 1) (drop s t)) = Code"
proof -
  have r: "- int (length t) \<le> int s" "int s < int (length t)" "py_index t (int s) = Inr LBRACKET"
    using assms(1,2) by (simp_all add: py_index_def)
  note e = extract_js_array_scanned [OF r, unfolded scanned_nat]
  from e(2) obtain rest where rest: "drop s t = LBRACKET # rest" by blast
  show ?thesis
  proof (cases "first_close Code 0 (drop s t)")
    case None
    have "never_closes (drop s t)"
      unfolding never_closes_def
    proof
      fix n assume "n \<in> {1..length (drop s t)}"
      then have "0 < n" by simp
      from first_close_never [OF None [unfolded rest] this]
      show "bracket_depth (take n (drop s t)) \<noteq> 0" unfolding rest by simp
    qed
    then show ?thesis using assms(3) by simp
  next
    case (Some n)
    note c = first_close_closes_at [OF Some [unfolded rest], folded rest]
    have n: "0 < n" "s + n \<le> length t" using c(1) assms(1) by (auto simp add: closes_at_def)
    have "extract_js_array t (int s) = Inr (take n (drop s t))"
      using e(1) Some py_slice_nat [OF n(2)] by simp
    moreover have "t ! (s + n - 1) = RBRACKET"
    proof -
      have "drop s t ! (n - 1) = t ! (s + (n - 1))" using n by (intro nth_drop) simp
      then show ?thesis using c(2) n by simp
    qed
    ultimately show ?thesis using c(1,3) by blast
  qed
qed




subsection \<open>The result in terms of the depth over the characters read\<close>

lemma extract_js_array_by_depth:
  assumes r: "- int (length t) \<le> start" "start < int (length t)"
    "py_index t start = Inr LBRACKET"
  shows "if never_closes (scanned t start)
       then extract_js_array t start = Inl UnterminatedArray
       else \<exists>n. closes_at (scanned t start) n
              \<and> extract_js_array t start = Inr (py_slice t start (start + int n))
              \<and> sublist (py_slice t start (start + int n)) t"
proof -
  note e = extract_js_array_scanned [OF r]
  from e(2) obtain rest where rest: "scanned t start = LBRACKET # rest" by blast
  show ?thesis
  proof (cases "first_close Code 0 (scanned t start)")
    case None
    have "never_closes (scanned t start)"
      unfolding never_closes_def
    proof
      fix n assume "n \<in> {1..length (scanned t start)}"
      then have "0 < n" by simp
      from first_close_never [OF None [unfolded rest] this]
      show "bracket_depth (take n (scanned t start)) \<noteq> 0" unfolding rest by simp
    qed
    then show ?thesis using e(1) None by simp
  next
    case (Some n)
    note c = first_close_closes_at(1) [OF Some [unfolded rest], folded rest]
    then have "n \<in> {1..length (scanned t start)}" "bracket_depth (take n (scanned t start)) = 0"
      by (simp_all add: closes_at_def)
    then have "\<not> never_closes (scanned t start)" unfolding never_closes_def by blast
    then show ?thesis using e(1) Some c sublist_py_slice by auto
  qed
qed


subsection \<open>The loop's variables on a prefix, and insertion inside a string literal\<close>

lemma foldl_loop_body_sim:
  "wf_state st \<Longrightarrow>
   wf_state (foldl (\<lambda>st ch. fst (loop_body st ch)) st cs)
   \<and> mode_of (foldl (\<lambda>st ch. fst (loop_body st ch)) st cs) = mode_after (mode_of st) cs
   \<and> depth (foldl (\<lambda>st ch. fst (loop_body st ch)) st cs) = depth st + depth_from (mode_of st) cs"
proof (induction cs arbitrary: st)
  case Nil
  then show ?case by simp
next
  case (Cons c cs)
  obtain st' r where b: "loop_body st c = (st', r)" by (cases "loop_body st c")
  note s = loop_body_sim [OF Cons.prems b]
  from Cons.IH [OF s(1)] show ?case using b s(2,3) by simp
qed

lemma state_after_sim:
  "wf_state (state_after p)" "mode_of (state_after p) = mode_after Code p"
  "depth (state_after p) = bracket_depth p"
  using foldl_loop_body_sim [OF initial_state_facts(1), of p]
  by (simp_all add: state_after_def bracket_depth_def initial_state_facts)

lemma state_after_snoc: "state_after (p @ [c]) = fst (loop_body (state_after p) c)"
  by (simp add: state_after_def)

lemma in_string_mode_of: "in_string st \<longleftrightarrow> mode_of st \<noteq> Code"
  by (simp add: mode_of_def)

lemma string_content_in_string:
  "q \<notin> set ins \<Longrightarrow> BACKSLASH \<notin> set ins \<Longrightarrow>
   mode_after (Str q) ins = Str q \<and> depth_from (Str q) ins = 0
   \<and> first_close (Str q) d ins = None"
  by (induction ins arbitrary: d) (simp_all add: bracket_step_def)

lemma first_close_insert_content:
  assumes "mode_after m a = Str q"
    and "mode_after (Str q) ins = Str q" and "depth_from (Str q) ins = 0"
    and "\<And>d. first_close (Str q) d ins = None"
  shows "first_close m d (a @ ins @ b) =
     map_option (\<lambda>k. if k \<le> length a then k else k + length ins) (first_close m d (a @ b))"
proof (cases "first_close m d a")
  case (Some k)
  then have "k \<le> length a" using first_close_bound by blast
  then show ?thesis using Some by (simp add: first_close_append)
next
  case None
  let ?d = "d + depth_from m a"
  have i: "first_close (Str q) ?d (ins @ b) =
      map_option (\<lambda>k. k + length ins) (first_close (Str q) ?d b)"
    by (subst first_close_append) (simp add: assms(2,3,4))
  show ?thesis
  proof (cases "first_close (Str q) ?d b")
    case N: None
    then show ?thesis using None assms(1) i
      by (simp add: first_close_append [of m d a] del: first_close.simps)
  next
    case S: (Some k)
    then have "0 < k" using first_close_bound by blast
    then show ?thesis using None assms(1) i S
      by (simp add: first_close_append [of m d a] del: first_close.simps)
  qed
qed

lemma extract_js_array_insert_content:
  assumes a: "s < length t" "t ! s = LBRACKET" "s + j \<le> length t"
    "mode_after Code (take j (drop s t)) = Str q"
    and c: "mode_after (Str q) ins = Str q" "depth_from (Str q) ins = 0"
      "\<And>d. first_close (Str q) d ins = None"
  shows "extract_js_array (take (s + j) t @ ins @ drop (s + j) t) (int s) =
         (case extract_js_array t (int s) of
            Inl e \<Rightarrow> Inl e
          | Inr arr \<Rightarrow>
              Inr (if j < length arr then take j arr @ ins @ drop j arr else arr))"
proof -
  let ?a = "take j (drop s t)" and ?b = "drop (s + j) t"
  let ?t' = "take (s + j) t @ ins @ ?b"
  have la: "length ?a = j" using a by (auto simp: min_def)
  have split: "drop s t = ?a @ ?b"
    by (metis append_take_drop_id drop_drop add.commute)
  have j0: "0 < j" using a by (cases j) auto
  have d': "drop s ?t' = ?a @ ins @ ?b"
    using a by (simp add: drop_take)
  have s': "s < length ?t'" "?t' ! s = LBRACKET"
    using a j0 by (simp_all add: nth_append)
  have fc: "first_close Code 0 (drop s ?t') =
      map_option (\<lambda>k. if k \<le> j then k else k + length ins) (first_close Code 0 (drop s t))"
  proof -
    have "first_close Code 0 (drop s ?t') =
        map_option (\<lambda>k. if k \<le> length ?a then k else k + length ins)
          (first_close Code 0 (?a @ ?b))"
      unfolding d' by (rule first_close_insert_content [OF a(4) c])
    then show ?thesis by (simp only: la split [symmetric])
  qed
  show ?thesis
  proof (cases "first_close Code 0 (drop s t)")
    case None
    then show ?thesis
      using fc extract_js_array_nat [OF s'] extract_js_array_nat [of s t] a by simp
  next
    case (Some k)
    have kb: "k \<le> length (drop s t)" using first_close_bound [OF Some] by simp
    have old: "extract_js_array t (int s) = Inr (take k (drop s t))"
      using extract_js_array_nat [of s t] a Some by simp
    have lk: "length (take k (drop s t)) = k" using kb by simp
    show ?thesis
    proof (cases "k \<le> j")
      case True
      then have "first_close Code 0 (drop s ?t') = Some k" using fc Some by simp
      then have "extract_js_array ?t' (int s) = Inr (take k (drop s ?t'))"
        using extract_js_array_nat [OF s'] by simp
      moreover have "take k (drop s ?t') = take k (drop s t)"
        unfolding d' using True la by (subst (2) split) simp
      ultimately show ?thesis using old lk True by simp
    next
      case False
      then have "first_close Code 0 (drop s ?t') = Some (k + length ins)" using fc Some by simp
      then have new: "extract_js_array ?t' (int s) = Inr (take (k + length ins) (drop s ?t'))"
        using extract_js_array_nat [OF s'] by simp
      have sp: "take k (drop s t) = ?a @ take (k - j) ?b"
        using False la by (subst split) simp
      have "take (k + length ins) (drop s ?t') = ?a @ ins @ take (k - j) ?b"
      proof -
        from False have jk: "j < k" by simp
        have "take (k + length ins) (?a @ ins @ ?b) =
            ?a @ take (k + length ins - j) (ins @ ?b)"
          using la jk by (simp add: take_append)
        also have "take (k + length ins - j) (ins @ ?b) = ins @ take (k - j) ?b"
          using jk by (simp add: take_append)
        finally show ?thesis unfolding d' .
      qed
      moreover have "take j (take k (drop s t)) = ?a" "drop j (take k (drop s t)) = take (k - j) ?b"
        unfolding sp using la by simp_all
      ultimately show ?thesis using old new lk False by simp
    qed
  qed
qed


subsection \<open>The minimum under a key that can raise, and the price key\<close>

lemma min_scan_min_from:
  "\<forall>x \<in> set xs. \<exists>v. key x = Inr v \<Longrightarrow> key best = Inr bk \<Longrightarrow>
   min_scan key best bk xs = Inr (min_from (\<lambda>x. projr (key x)) best xs)"
proof (induction xs arbitrary: best bk)
  case Nil
  then show ?case by simp
next
  case (Cons x xs)
  from Cons.prems(1) obtain v where v: "key x = Inr v" by auto
  have r: "\<forall>x \<in> set xs. \<exists>v. key x = Inr v" using Cons.prems(1) by simp
  show ?case
  proof (cases "v < bk")
    case True
    then show ?thesis using Cons.IH [OF r v] v Cons.prems(2) by simp
  next
    case False
    then show ?thesis using Cons.IH [OF r Cons.prems(2)] v Cons.prems(2) by simp
  qed
qed

lemma py_min_first_minimum:
  assumes "xs \<noteq> []" and "\<forall>x \<in> set xs. \<exists>v. key x = Inr v"
  shows "\<exists>m<length xs. py_min key xs = Inr (xs ! m)
      \<and> (\<forall>j<length xs. projr (key (xs ! m)) \<le> projr (key (xs ! j)))
      \<and> (\<forall>j<m. projr (key (xs ! m)) < projr (key (xs ! j)))"
proof -
  obtain x rest where x: "xs = x # rest" using assms(1) by (cases xs) auto
  from assms(2) obtain v where v: "key x = Inr v" unfolding x by auto
  have r: "\<forall>x \<in> set rest. \<exists>v. key x = Inr v" using assms(2) unfolding x by simp
  have "py_min key xs = Inr (min_from (\<lambda>x. projr (key x)) x rest)"
    unfolding x using min_scan_min_from [OF r v] v by (simp add: py_min_def)
  moreover from min_from_first_minimum [of 0 "[x]" "\<lambda>x. projr (key x)" rest]
  have "\<exists>m<length xs. min_from (\<lambda>x. projr (key x)) x rest = xs ! m
      \<and> (\<forall>j<length xs. projr (key (xs ! m)) \<le> projr (key (xs ! j)))
      \<and> (\<forall>j<m. projr (key (xs ! m)) < projr (key (xs ! j)))"
    unfolding x by simp
  ultimately show ?thesis by auto
qed

lemma min_scan_error:
  "\<exists>x \<in> set xs. key x = Inl e \<Longrightarrow> \<forall>x \<in> set xs. \<forall>e'. key x = Inl e' \<longrightarrow> e' = e \<Longrightarrow>
   min_scan key best bk xs = Inl e"
proof (induction xs arbitrary: best bk)
  case Nil
  then show ?case by simp
next
  case (Cons x xs)
  show ?case
  proof (cases "key x")
    case (Inl e')
    then have "e' = e" using Cons.prems(2) by simp
    then show ?thesis using Inl by simp
  next
    case (Inr v)
    then have "\<exists>x \<in> set xs. key x = Inl e" using Cons.prems(1) by auto
    moreover have "\<forall>x \<in> set xs. \<forall>e'. key x = Inl e' \<longrightarrow> e' = e" using Cons.prems(2) by simp
    ultimately show ?thesis using Cons.IH Inr by simp
  qed
qed

lemma py_min_error:
  assumes "\<exists>x \<in> set xs. key x = Inl e" and "\<forall>x \<in> set xs. \<forall>e'. key x = Inl e' \<longrightarrow> e' = e"
  shows "py_min key xs = Inl e"
proof -
  obtain x rest where x: "xs = x # rest" using assms(1) by (cases xs) auto
  show ?thesis
  proof (cases "key x")
    case (Inl e')
    then have "e' = e" using assms(2) unfolding x by simp
    then show ?thesis using Inl unfolding x by (simp add: py_min_def)
  next
    case (Inr v)
    then have "\<exists>x \<in> set rest. key x = Inl e" using assms(1) unfolding x by auto
    moreover have "\<forall>x \<in> set rest. \<forall>e'. key x = Inl e' \<longrightarrow> e' = e"
      using assms(2) unfolding x by simp
    ultimately show ?thesis using min_scan_error [of rest key e x v] Inr
      unfolding x by (simp add: py_min_def)
  qed
qed

lemma clean_price_None: "clean_price_to_int L None = Inr (10 ^ 12)"
  by (simp add: clean_price_to_int_def)

lemma clean_price_no_digits:
  "\<forall>c \<in> set t. decimal_digit L c = None \<Longrightarrow> clean_price_to_int L (Some t) = Inr (10 ^ 12)"
proof -
  assume "\<forall>c \<in> set t. decimal_digit L c = None"
  then have "filter (\<lambda>c. decimal_digit L c \<noteq> None) t = []" by (simp add: filter_empty_conv)
  then show ?thesis by (simp add: clean_price_to_int_def)
qed

lemma clean_price_digits:
  assumes "\<exists>c \<in> set t. decimal_digit L c \<noteq> None"
  shows "clean_price_to_int L (Some t) =
    (if within_digit_limit L (length (filter (\<lambda>c. decimal_digit L c \<noteq> None) t))
     then Inr (int_of_digits L (filter (\<lambda>c. decimal_digit L c \<noteq> None) t))
     else Inl ValueError)"
proof -
  have "filter (\<lambda>c. decimal_digit L c \<noteq> None) t \<noteq> []" "t \<noteq> []"
    using assms by (auto simp: filter_empty_conv)
  then show ?thesis by (simp add: clean_price_to_int_def)
qed

lemma clean_price_error: "clean_price_to_int L p = Inl e \<Longrightarrow> e = ValueError"
  by (auto simp: clean_price_to_int_def Let_def split: option.splits if_splits)

lemma clean_price_within:
  assumes "\<forall>s. p = Some s \<longrightarrow>
    within_digit_limit L (length (filter (\<lambda>c. decimal_digit L c \<noteq> None) s))"
  shows "\<exists>v. clean_price_to_int L p = Inr v"
  using assms by (cases p) (simp_all add: clean_price_to_int_def Let_def)

lemma clean_price_beyond:
  assumes "\<not> within_digit_limit L (length (filter (\<lambda>c. decimal_digit L c \<noteq> None) s))"
  shows "clean_price_to_int L (Some s) = Inl ValueError"
proof -
  have "filter (\<lambda>c. decimal_digit L c \<noteq> None) s \<noteq> []"
    using assms by (auto simp: within_digit_limit_def)
  moreover then have "s \<noteq> []" by auto
  ultimately show ?thesis using assms by (simp add: clean_price_to_int_def)
qed

lemma clean_price_example:
  assumes "ascii_digits L" "decimal_digit L RUPEE = None" "within_digit_limit L 4"
  shows "clean_price_to_int L (Some (RUPEE # ascii ''1,234'')) = Inr 1234"
proof -
  have d: "decimal_digit L 49 = Some 1" "decimal_digit L 50 = Some 2"
    "decimal_digit L 51 = Some 3" "decimal_digit L 52 = Some 4" "decimal_digit L 44 = None"
    using assms(1) by (simp_all add: ascii_digits_def ascii_digit_def)
  have w: "within_digit_limit L (Suc (Suc (Suc (Suc 0))))"
    using assms(3) by (simp add: eval_nat_numeral)
  show ?thesis
    using d assms(2) w
    by (simp add: clean_price_to_int_def ascii_def int_of_digits_def digit_value_def)
qed

lemma ascii_lib_digits: "ascii_digits ascii_lib" "decimal_digit ascii_lib RUPEE = None"
  "within_digit_limit ascii_lib 4"
  by (simp_all add: ascii_digits_def ascii_lib_def ascii_digit_def RUPEE_def
      within_digit_limit_def)

lemma example_keys:
  "clean_price_to_int ascii_lib (price offer_a) = Inr 500"
  "clean_price_to_int ascii_lib (price absent_offer) = Inr 1000000000000"
  "clean_price_to_int ascii_lib (price offer_c) = Inr 300"
  by (simp_all add: offer_a_def absent_offer_def offer_c_def clean_price_to_int_def
      ascii_lib_def ascii_def ascii_digit_def int_of_digits_def digit_value_def RUPEE_def
      within_digit_limit_def)

lemma example_limits:
  "within_digit_limit ascii_lib
     (length (filter (\<lambda>c. decimal_digit ascii_lib c \<noteq> None) (RUPEE # ascii ''500'')))"
  "within_digit_limit ascii_lib
     (length (filter (\<lambda>c. decimal_digit ascii_lib c \<noteq> None) (RUPEE # ascii ''300'')))"
  "\<not> within_digit_limit ascii_lib
     (length (filter (\<lambda>c. decimal_digit ascii_lib c \<noteq> None) (replicate 4301 49)))"
  by (simp_all add: ascii_lib_def ascii_def ascii_digit_def RUPEE_def within_digit_limit_def)


subsection \<open>The currency text and the price of an offer\<close>

















section \<open>Properties of the extractor\<close>

text \<open>
  Claim C10. For every text and every start index greater than or equal to the length of
  the text, \<open>extract_js_array\<close> fails with \<open>IndexError\<close>, raised by the indexing in its
  first test, and with neither of its own two errors.
\<close>

theorem extract_js_array_index_out_of_range:
  "int (length text) \<le> start \<Longrightarrow> extract_js_array text start = Inl IndexError"
  by (simp add: extract_js_array_def py_index_def)

theorem extract_js_array_index_out_of_range_witness:
  "int (length [LBRACKET, RBRACKET]) \<le> 2
   \<and> extract_js_array [LBRACKET, RBRACKET] 2 = Inl IndexError"
  using extract_js_array_index_out_of_range [of "[LBRACKET, RBRACKET]" 2] by simp


text \<open>
  Claim C1. For every text and every non-negative start index whose character is \<open>[\<close> and
  from which the bracketed literal is balanced, brackets inside string literals not counting,
  \<open>extract_js_array\<close> returns the characters from the start index through the matching
  closing bracket: the one span whose bracket depth, starting at 0, is back at 0 at its last
  character and at no earlier one. That last character is a \<open>]\<close> outside every string.
\<close>

theorem extract_js_array_returns_minimal_span:
  assumes "0 \<le> start" and "start < int (length t)" and "py_index t start = Inr LBRACKET"
    and "\<not> never_closes (drop (nat start) t)"
  shows "\<exists>n. closes_at (drop (nat start) t) n
           \<and> extract_js_array t start = Inr (take n (drop (nat start) t))
           \<and> t ! (nat start + n - 1) = RBRACKET
           \<and> mode_after Code (take (n - 1) (drop (nat start) t)) = Code"
proof -
  have s: "nat start < length t" "int (nat start) = start" using assms(1,2) by simp_all
  have "t ! nat start = LBRACKET" using assms(1,2,3) by (simp add: py_index_def)
  from extract_js_array_span_nat [OF s(1) this assms(4)] show ?thesis by (simp only: s(2))
qed

text \<open>
  The text of example_text from position 1 on: the first closing bracket stands in a string,
  and the span ends at the bracket that closes the outer array.
\<close>

theorem extract_js_array_returns_minimal_span_witness:
  "(0::int) \<le> 1 \<and> 1 < int (length example_text) \<and> py_index example_text 1 = Inr LBRACKET
   \<and> \<not> never_closes (drop (nat 1) example_text)
   \<and> closes_at (drop (nat 1) example_text) 9
   \<and> extract_js_array example_text 1 =
        Inr [LBRACKET, APOSTROPHE, RBRACKET, APOSTROPHE, COMMA, LBRACKET, 49, RBRACKET, RBRACKET]"
proof -
  have h: "(0::int) \<le> 1" "1 < int (length example_text)"
    "py_index example_text 1 = Inr LBRACKET"
    by (simp_all add: example_text_def py_index_def)
  have d: "drop (nat 1) example_text =
      [LBRACKET, APOSTROPHE, RBRACKET, APOSTROPHE, COMMA, LBRACKET, 49, RBRACKET, RBRACKET, 120]"
    by (simp add: example_text_def)
  have n: "\<not> never_closes (drop (nat 1) example_text)"
    unfolding d by (subst never_closes_eval) (simp_all add: scan_eval)
  have c: "closes_at (drop (nat 1) example_text) 9"
    unfolding d by (subst closes_at_eval) (simp_all add: scan_eval)
  from extract_js_array_returns_minimal_span [OF h n] obtain k where
    k: "closes_at (drop (nat 1) example_text) k"
      "extract_js_array example_text 1 = Inr (take k (drop (nat 1) example_text))"
    by blast
  have "k = 9" by (rule closes_at_unique [OF k(1) c])
  then show ?thesis using h n c k(2) unfolding d by simp
qed

text \<open>
  A negative start index is accepted by the indexing of the first test, which counts it from
  the end of the text, but the loop then runs from that index up through the text and the
  result is cut with the closing position as a non-negative slice bound: on the two characters
  \<open>[]\<close> at start -2, a balanced literal, the result is the empty text.
\<close>

theorem negative_start_returns_other_span:
  "py_index [LBRACKET, RBRACKET] (- 2) = Inr LBRACKET
   \<and> closes_at [LBRACKET, RBRACKET] 2
   \<and> extract_js_array [LBRACKET, RBRACKET] (- 2) = Inr []"
proof -
  let ?t = "[LBRACKET, RBRACKET]"
  have p: "py_index ?t (- 2) = Inr LBRACKET" by (simp add: py_index_def)
  have c: "closes_at ?t 2" by (subst closes_at_eval) (simp_all add: scan_eval)
  have "extract_js_array ?t (- 2) =
      (case first_close Code 0 (scanned ?t (- 2)) of
         None \<Rightarrow> Inl UnterminatedArray
       | Some k \<Rightarrow> Inr (py_slice ?t (- 2) (- 2 + int k)))"
    by (rule extract_js_array_scanned(1)) (simp_all add: py_index_def)
  then have "extract_js_array ?t (- 2) = Inr []"
    by (simp add: scan_eval py_slice_def slice_bound_def)
  then show ?thesis using p c by blast
qed


text \<open>
  Claim C3, as amended. A start index outside the text (at or past its end, or below minus
  its length) fails with \<open>IndexError\<close>. For a start index inside the text,
  \<open>extract_js_array\<close> fails with \<open>InvalidStart\<close> when the character there, a negative index
  counting from the end, is not \<open>[\<close>. For a non-negative start at a \<open>[\<close> it fails with
  \<open>UnterminatedArray\<close> exactly when the end of the text is reached with the depth never back
  at 0, returning nothing then, and otherwise returns the characters from the start through
  the bracket where the depth is first back at 0, a substring of the text. For a negative
  start at a \<open>[\<close> the loop reads the text from that position to its end and then the whole
  text again; it fails with \<open>UnterminatedArray\<close> exactly when the depth is never back at 0
  over these characters, and otherwise returns the slice from the start index to the index
  after the one where the depth is first back at 0, a substring of the text that may be empty
  and need not be the array literal. There is no other outcome.
\<close>

theorem extract_js_array_failure_modes:
  "(start < - int (length t) \<or> int (length t) \<le> start \<longrightarrow>
      extract_js_array t start = Inl IndexError)
   \<and> (- int (length t) \<le> start \<and> start < int (length t)
        \<and> py_index t start \<noteq> Inr LBRACKET \<longrightarrow>
      extract_js_array t start = Inl InvalidStart)
   \<and> (0 \<le> start \<and> start < int (length t) \<and> py_index t start = Inr LBRACKET \<longrightarrow>
      (if never_closes (drop (nat start) t)
       then extract_js_array t start = Inl UnterminatedArray
       else \<exists>n. closes_at (drop (nat start) t) n
              \<and> extract_js_array t start = Inr (take n (drop (nat start) t))
              \<and> sublist (take n (drop (nat start) t)) t))
   \<and> (- int (length t) \<le> start \<and> start < 0 \<and> py_index t start = Inr LBRACKET \<longrightarrow>
      (if never_closes (scanned t start)
       then extract_js_array t start = Inl UnterminatedArray
       else \<exists>n. closes_at (scanned t start) n
              \<and> extract_js_array t start = Inr (py_slice t start (start + int n))
              \<and> sublist (py_slice t start (start + int n)) t))"
proof -
  have a: "extract_js_array t start = Inl IndexError"
    if "start < - int (length t) \<or> int (length t) \<le> start"
    using that by (auto simp: extract_js_array_def py_index_def)
  have b: "extract_js_array t start = Inl InvalidStart"
    if "- int (length t) \<le> start \<and> start < int (length t)
      \<and> py_index t start \<noteq> Inr LBRACKET"
  proof -
    from that obtain c where "py_index t start = Inr c" "c \<noteq> LBRACKET"
      by (auto simp: py_index_def split: if_splits)
    then show ?thesis by (simp add: extract_js_array_def)
  qed
  have c: "if never_closes (drop (nat start) t)
       then extract_js_array t start = Inl UnterminatedArray
       else \<exists>n. closes_at (drop (nat start) t) n
              \<and> extract_js_array t start = Inr (take n (drop (nat start) t))
              \<and> sublist (take n (drop (nat start) t)) t"
    if h: "0 \<le> start \<and> start < int (length t) \<and> py_index t start = Inr LBRACKET"
  proof -
    have s: "scanned t start = drop (nat start) t" using h by (simp add: scanned_def)
    have r: "- int (length t) \<le> start" "start < int (length t)"
      "py_index t start = Inr LBRACKET" using h by simp_all
    note e = extract_js_array_by_depth [OF r, unfolded s]
    show ?thesis
    proof (cases "never_closes (drop (nat start) t)")
      case True
      then show ?thesis using e by simp
    next
      case False
      with e obtain n where n: "closes_at (drop (nat start) t) n"
        "extract_js_array t start = Inr (py_slice t start (start + int n))"
        "sublist (py_slice t start (start + int n)) t" by auto
      from n(1) have "n \<le> length (drop (nat start) t)" by (simp add: closes_at_def)
      moreover have "nat start < length t" using h by linarith
      ultimately have "nat start + n \<le> length t" by simp
      from py_slice_nat [OF this]
      have "py_slice t start (start + int n) = take n (drop (nat start) t)" using h by simp
      then show ?thesis using False n by auto
    qed
  qed
  have d: "if never_closes (scanned t start)
       then extract_js_array t start = Inl UnterminatedArray
       else \<exists>n. closes_at (scanned t start) n
              \<and> extract_js_array t start = Inr (py_slice t start (start + int n))
              \<and> sublist (py_slice t start (start + int n)) t"
    if h: "- int (length t) \<le> start \<and> start < 0 \<and> py_index t start = Inr LBRACKET"
  proof -
    have r: "- int (length t) \<le> start" "start < int (length t)"
      "py_index t start = Inr LBRACKET" using h by simp_all
    show ?thesis by (rule extract_js_array_by_depth [OF r])
  qed
  show ?thesis using a b c d by blast
qed

text \<open>
  One input for each outcome: a start index below minus the length, a start that is not a
  bracket, a literal whose closing bracket stands in a string that ends the text, a nested
  literal followed by another character, and two negative starts, one unterminated and one
  that returns the literal.
\<close>

theorem extract_js_array_failure_modes_witness:
  "extract_js_array [LBRACKET, RBRACKET] (- 3) = Inl IndexError
   \<and> extract_js_array [120, RBRACKET] 0 = Inl InvalidStart
   \<and> extract_js_array [LBRACKET, DQUOTE, RBRACKET, DQUOTE] 0 = Inl UnterminatedArray
   \<and> extract_js_array [LBRACKET, LBRACKET, RBRACKET, RBRACKET, 120] 0 =
        Inr [LBRACKET, LBRACKET, RBRACKET, RBRACKET]
   \<and> extract_js_array [120, LBRACKET, LBRACKET] (- 1) = Inl UnterminatedArray
   \<and> extract_js_array [LBRACKET, RBRACKET, 120] (- 3) = Inr [LBRACKET, RBRACKET]"
proof -
  have a: "extract_js_array [LBRACKET, RBRACKET] (- 3) = Inl IndexError"
    by (rule extract_js_array_failure_modes [THEN conjunct1, rule_format]) simp
  have b: "extract_js_array [120, RBRACKET] 0 = Inl InvalidStart"
    by (rule extract_js_array_failure_modes [THEN conjunct2, THEN conjunct1, rule_format])
      (simp add: py_index_def char_defs)
  let ?u = "[LBRACKET, DQUOTE, RBRACKET, DQUOTE]"
  have n: "never_closes (drop (nat 0) ?u)"
    by (subst never_closes_eval) (simp_all add: scan_eval)
  have "0 \<le> (0::int) \<and> 0 < int (length ?u) \<and> py_index ?u 0 = Inr LBRACKET"
    by (simp add: py_index_def)
  from extract_js_array_failure_modes
    [THEN conjunct2, THEN conjunct2, THEN conjunct1, rule_format, OF this]
  have c: "extract_js_array ?u 0 = Inl UnterminatedArray"
    by (simp only: n if_True)
  let ?t = "[LBRACKET, LBRACKET, RBRACKET, RBRACKET, 120]"
  have m: "\<not> never_closes (drop (nat 0) ?t)" "closes_at (drop (nat 0) ?t) 4"
    by (subst never_closes_eval, simp_all add: scan_eval)
      (subst closes_at_eval, simp_all add: scan_eval)
  have "0 \<le> (0::int) \<and> 0 < int (length ?t) \<and> py_index ?t 0 = Inr LBRACKET"
    by (simp add: py_index_def)
  from extract_js_array_failure_modes
    [THEN conjunct2, THEN conjunct2, THEN conjunct1, rule_format, OF this]
  have "\<exists>n. closes_at (drop (nat 0) ?t) n
      \<and> extract_js_array ?t 0 = Inr (take n (drop (nat 0) ?t))
      \<and> sublist (take n (drop (nat 0) ?t)) ?t"
    by (simp only: m(1) if_False)
  then obtain k where
    k: "closes_at (drop (nat 0) ?t) k" "extract_js_array ?t 0 = Inr (take k (drop (nat 0) ?t))"
    by blast
  have "k = 4" by (rule closes_at_unique [OF k(1) m(2)])
  then have d: "extract_js_array ?t 0 = Inr [LBRACKET, LBRACKET, RBRACKET, RBRACKET]"
    using k(2) by simp
  let ?v = "[120, LBRACKET, LBRACKET]"
  have nv: "never_closes (scanned ?v (- 1))"
    by (subst never_closes_eval) (simp_all add: scan_eval)
  have "- int (length ?v) \<le> - 1 \<and> - 1 < (0::int) \<and> py_index ?v (- 1) = Inr LBRACKET"
    by (simp add: py_index_def)
  from extract_js_array_failure_modes
    [THEN conjunct2, THEN conjunct2, THEN conjunct2, rule_format, OF this]
  have e: "extract_js_array ?v (- 1) = Inl UnterminatedArray"
    by (simp only: nv if_True)
  let ?w = "[LBRACKET, RBRACKET, 120]"
  have mw: "\<not> never_closes (scanned ?w (- 3))" "closes_at (scanned ?w (- 3)) 2"
    by (subst never_closes_eval, simp_all add: scan_eval)
      (subst closes_at_eval, simp_all add: scan_eval)
  have "- int (length ?w) \<le> - 3 \<and> - 3 < (0::int) \<and> py_index ?w (- 3) = Inr LBRACKET"
    by (simp add: py_index_def)
  from extract_js_array_failure_modes
    [THEN conjunct2, THEN conjunct2, THEN conjunct2, rule_format, OF this]
  have "\<exists>n. closes_at (scanned ?w (- 3)) n
      \<and> extract_js_array ?w (- 3) = Inr (py_slice ?w (- 3) (- 3 + int n))
      \<and> sublist (py_slice ?w (- 3) (- 3 + int n)) ?w"
    by (simp only: mw(1) if_False)
  then obtain j where
    j: "closes_at (scanned ?w (- 3)) j"
      "extract_js_array ?w (- 3) = Inr (py_slice ?w (- 3) (- 3 + int j))"
    by blast
  have "j = 2" by (rule closes_at_unique [OF j(1) mw(2)])
  then have f: "extract_js_array ?w (- 3) = Inr [LBRACKET, RBRACKET]"
    using j(2) by (simp add: py_slice_def slice_bound_def)
  show ?thesis using a b c d e f by blast
qed

text \<open>
  The claim C3 as first stated names \<open>InvalidStart\<close> and \<open>UnterminatedArray\<close> as the only
  failures, and a failure as the only outcome of an unterminated literal. A start index past
  the end of the text fails with neither; and at start -3 of the three characters bracket,
  apostrophe, bracket, where the apostrophe opens a string that never ends, the loop reads
  the text a second time, finds the depth back at 0 at the last bracket and returns the
  whole text.
\<close>

theorem extract_js_array_third_failure_mode:
  "extract_js_array [LBRACKET, RBRACKET] 5 = Inl IndexError
   \<and> extract_js_array [LBRACKET, RBRACKET] 5 \<noteq> Inl InvalidStart
   \<and> extract_js_array [LBRACKET, RBRACKET] 5 \<noteq> Inl UnterminatedArray
   \<and> py_index [LBRACKET, APOSTROPHE, RBRACKET] (- 3) = Inr LBRACKET
   \<and> never_closes [LBRACKET, APOSTROPHE, RBRACKET]
   \<and> extract_js_array [LBRACKET, APOSTROPHE, RBRACKET] (- 3) =
        Inr [LBRACKET, APOSTROPHE, RBRACKET]"
proof -
  let ?t = "[LBRACKET, APOSTROPHE, RBRACKET]"
  have a: "extract_js_array [LBRACKET, RBRACKET] 5 = Inl IndexError"
    by (simp add: extract_js_array_def py_index_def)
  have p: "py_index ?t (- 3) = Inr LBRACKET" by (simp add: py_index_def)
  have n: "never_closes ?t" by (subst never_closes_eval) (simp_all add: scan_eval)
  have "extract_js_array ?t (- 3) =
      (case first_close Code 0 (scanned ?t (- 3)) of
         None \<Rightarrow> Inl UnterminatedArray
       | Some k \<Rightarrow> Inr (py_slice ?t (- 3) (- 3 + int k)))"
    by (rule extract_js_array_scanned(1)) (simp_all add: py_index_def)
  then have e: "extract_js_array ?t (- 3) = Inr ?t"
    by (simp add: scan_eval py_slice_def slice_bound_def)
  show ?thesis using a p n e by simp
qed


text \<open>
  Claim C2, as amended. After any characters \<open>p\<close> the loop's depth count is the bracket depth
  of \<open>p\<close>, in which brackets inside string literals do not count, and the loop is inside a
  string exactly when \<open>p\<close> ends inside a string literal; there no further character, a bracket
  included, changes the depth count or ends the scan. And inserting, at a position inside
  a string literal that is not directly behind an unescaped backslash, either a backslash
  followed by the string's own quote character, or any characters other than that quote and
  the backslash (brackets among them), leaves the boundaries of the extracted span where
  they were: the new result is the old span with the characters inserted (or the old span
  itself, when it ended before the insertion point), and an error stays the same error.
\<close>

theorem string_content_keeps_span:
  "depth (state_after p) = bracket_depth p
   \<and> (in_string (state_after p) \<longleftrightarrow> mode_after Code p \<noteq> Code)
   \<and> (mode_after Code p \<noteq> Code \<longrightarrow>
        depth (state_after (p @ [ch])) = depth (state_after p)
        \<and> \<not> snd (loop_body (state_after p) ch))
   \<and> (s < length t \<and> t ! s = LBRACKET \<and> s + j \<le> length t
        \<and> mode_after Code (take j (drop s t)) = Str q
        \<and> (q \<notin> set ins \<and> BACKSLASH \<notin> set ins \<or> ins = [BACKSLASH, q]) \<longrightarrow>
       extract_js_array (take (s + j) t @ ins @ drop (s + j) t) (int s) =
         (case extract_js_array t (int s) of
            Inl e \<Rightarrow> Inl e
          | Inr arr \<Rightarrow>
              Inr (if j < length arr then take j arr @ ins @ drop j arr else arr)))"
proof -
  have 1: "depth (state_after p) = bracket_depth p" by (rule state_after_sim(3))
  have 2: "in_string (state_after p) \<longleftrightarrow> mode_after Code p \<noteq> Code"
    by (simp add: in_string_mode_of state_after_sim(2))
  have 3: "depth (state_after (p @ [ch])) = depth (state_after p)
      \<and> \<not> snd (loop_body (state_after p) ch)"
    if "mode_after Code p \<noteq> Code"
  proof -
    from that 2 have "in_string (state_after p)" by simp
    then show ?thesis by (simp add: state_after_snoc loop_body_def)
  qed
  have 4: "extract_js_array (take (s + j) t @ ins @ drop (s + j) t) (int s) =
         (case extract_js_array t (int s) of
            Inl e \<Rightarrow> Inl e
          | Inr arr \<Rightarrow>
              Inr (if j < length arr then take j arr @ ins @ drop j arr else arr))"
    if h: "s < length t \<and> t ! s = LBRACKET \<and> s + j \<le> length t
        \<and> mode_after Code (take j (drop s t)) = Str q
        \<and> (q \<notin> set ins \<and> BACKSLASH \<notin> set ins \<or> ins = [BACKSLASH, q])"
  proof -
    have c: "mode_after (Str q) ins = Str q \<and> depth_from (Str q) ins = 0
        \<and> (\<forall>d. first_close (Str q) d ins = None)"
      using h string_content_in_string [of q ins] escaped_quote_in_string [of q] by auto
    from h have a: "s < length t" "t ! s = LBRACKET" "s + j \<le> length t"
      "mode_after Code (take j (drop s t)) = Str q" by blast+
    from c have c': "mode_after (Str q) ins = Str q" "depth_from (Str q) ins = 0"
      "\<And>d. first_close (Str q) d ins = None" by blast+
    show ?thesis by (rule extract_js_array_insert_content [OF a c'])
  qed
  show ?thesis using 1 2 3 4 by blast
qed

text \<open>
  The literal \<^verbatim>\<open>["a"]\<close>: a closing bracket read inside its string leaves the depth at 1,
  and with a closing bracket, or a backslash and a double quote, inserted behind the opening
  quote the whole literal is still extracted.
\<close>

theorem string_content_keeps_span_witness:
  "mode_after Code [LBRACKET, DQUOTE] \<noteq> Code
   \<and> depth (state_after ([LBRACKET, DQUOTE] @ [RBRACKET])) = 1
   \<and> mode_after Code (take 2 (drop 0 [LBRACKET, DQUOTE, 97, DQUOTE, RBRACKET])) = Str DQUOTE
   \<and> extract_js_array [LBRACKET, DQUOTE, 97, DQUOTE, RBRACKET] 0 =
        Inr [LBRACKET, DQUOTE, 97, DQUOTE, RBRACKET]
   \<and> extract_js_array [LBRACKET, DQUOTE, RBRACKET, 97, DQUOTE, RBRACKET] 0 =
        Inr [LBRACKET, DQUOTE, RBRACKET, 97, DQUOTE, RBRACKET]
   \<and> extract_js_array [LBRACKET, DQUOTE, BACKSLASH, DQUOTE, 97, DQUOTE, RBRACKET] 0 =
        Inr [LBRACKET, DQUOTE, BACKSLASH, DQUOTE, 97, DQUOTE, RBRACKET]"
proof -
  let ?p = "[LBRACKET, DQUOTE]"
  let ?t = "[LBRACKET, DQUOTE, 97, DQUOTE, RBRACKET]"
  have m: "mode_after Code ?p \<noteq> Code" by (simp add: char_defs)
  have "depth (state_after ?p) = bracket_depth ?p"
    by (rule string_content_keeps_span [THEN conjunct1])
  moreover have "depth (state_after (?p @ [RBRACKET])) = depth (state_after ?p)"
    using string_content_keeps_span
      [THEN conjunct2, THEN conjunct2, THEN conjunct1, rule_format, OF m, of RBRACKET]
    by (rule conjunct1)
  ultimately have d: "depth (state_after (?p @ [RBRACKET])) = 1"
    by (simp add: bracket_depth_def bracket_step_def char_defs)
  have old: "extract_js_array ?t 0 = Inr ?t"
    by (subst extract_js_array_eval) (simp_all add: bracket_step_def char_defs)
  have h: "0 < length ?t \<and> ?t ! 0 = LBRACKET \<and> 0 + 2 \<le> length ?t
      \<and> mode_after Code (take 2 (drop 0 ?t)) = Str DQUOTE
      \<and> (DQUOTE \<notin> set [RBRACKET] \<and> BACKSLASH \<notin> set [RBRACKET]
          \<or> [RBRACKET] = [BACKSLASH, DQUOTE])"
    by (simp add: char_defs)
  from string_content_keeps_span
    [THEN conjunct2, THEN conjunct2, THEN conjunct2, rule_format, OF h]
  have "extract_js_array (take (0 + 2) ?t @ [RBRACKET] @ drop (0 + 2) ?t) (int 0) =
      (case extract_js_array ?t (int 0) of
         Inl e \<Rightarrow> Inl e
       | Inr arr \<Rightarrow>
           Inr (if 2 < length arr then take 2 arr @ [RBRACKET] @ drop 2 arr else arr))" .
  then have b: "extract_js_array [LBRACKET, DQUOTE, RBRACKET, 97, DQUOTE, RBRACKET] 0 =
      Inr [LBRACKET, DQUOTE, RBRACKET, 97, DQUOTE, RBRACKET]"
    using old by simp
  have h': "0 < length ?t \<and> ?t ! 0 = LBRACKET \<and> 0 + 2 \<le> length ?t
      \<and> mode_after Code (take 2 (drop 0 ?t)) = Str DQUOTE
      \<and> (DQUOTE \<notin> set [BACKSLASH, DQUOTE] \<and> BACKSLASH \<notin> set [BACKSLASH, DQUOTE]
          \<or> [BACKSLASH, DQUOTE] = [BACKSLASH, DQUOTE])"
    by (simp add: char_defs)
  from string_content_keeps_span
    [THEN conjunct2, THEN conjunct2, THEN conjunct2, rule_format, OF h']
  have "extract_js_array (take (0 + 2) ?t @ [BACKSLASH, DQUOTE] @ drop (0 + 2) ?t) (int 0) =
      (case extract_js_array ?t (int 0) of
         Inl e \<Rightarrow> Inl e
       | Inr arr \<Rightarrow>
           Inr (if 2 < length arr then take 2 arr @ [BACKSLASH, DQUOTE] @ drop 2 arr
                else arr))" .
  then have e: "extract_js_array [LBRACKET, DQUOTE, BACKSLASH, DQUOTE, 97, DQUOTE, RBRACKET] 0 =
      Inr [LBRACKET, DQUOTE, BACKSLASH, DQUOTE, 97, DQUOTE, RBRACKET]"
    using old by simp
  show ?thesis using m d h old b e by simp
qed

text \<open>
  The claim C2 as first stated allows the insertion anywhere inside the string. Between
  a backslash and the character it escapes, the inserted backslash becomes the escaped
  character and the inserted quote ends the string: the literal \<^verbatim>\<open>["\n"]\<close> is extracted
  whole, and with the two characters inserted behind its backslash the extraction fails.
\<close>

theorem escaped_quote_behind_backslash_changes_span:
  "extract_js_array [LBRACKET, DQUOTE, BACKSLASH, 110, DQUOTE, RBRACKET] 0 =
     Inr [LBRACKET, DQUOTE, BACKSLASH, 110, DQUOTE, RBRACKET]
   \<and> extract_js_array
        (take 3 [LBRACKET, DQUOTE, BACKSLASH, 110, DQUOTE, RBRACKET] @ [BACKSLASH, DQUOTE]
          @ drop 3 [LBRACKET, DQUOTE, BACKSLASH, 110, DQUOTE, RBRACKET]) 0 =
     Inl UnterminatedArray"
  by (rule conjI; subst extract_js_array_eval) (simp_all add: bracket_step_def char_defs)

section \<open>Properties of the anchor locator\<close>

text \<open>
  Claim C4. For every text and key, \<open>extract_array_for_key\<close> returns \<^verbatim>\<open>None\<close>, raising
  nothing, when the key does not occur in the text, when no colon occurs at or after the
  key's first occurrence, and when no \<open>[\<close> occurs after that colon. Otherwise it calls
  \<open>extract_js_array\<close> at the first \<open>[\<close> after the first colon after the first occurrence
  of the key, and its result is that call's result, error or array.
\<close>

theorem extract_array_for_key_locates_first_array:
  "(\<not> (\<exists>p. occurs_at key html p) \<longrightarrow> extract_array_for_key html key = Inr None)
   \<and> (first_from key html 0 p \<and> \<not> (\<exists>c\<ge>p. occurs_at [COLON] html c) \<longrightarrow>
        extract_array_for_key html key = Inr None)
   \<and> (first_from key html 0 p \<and> first_from [COLON] html p c
        \<and> \<not> (\<exists>b\<ge>c. occurs_at [LBRACKET] html b) \<longrightarrow>
        extract_array_for_key html key = Inr None)
   \<and> (first_from key html 0 p \<and> first_from [COLON] html p c
        \<and> first_from [LBRACKET] html c b \<longrightarrow>
        extract_array_for_key html key =
          (case extract_js_array html (int b) of
             Inl e \<Rightarrow> Inl e
           | Inr arr \<Rightarrow> Inr (Some arr)))"
proof -
  have none: "extract_array_for_key html key = Inr None" if "\<not> (\<exists>p. occurs_at key html p)"
  proof -
    have "py_find html key (int 0) = - 1" using that by (intro py_find_absent) auto
    then show ?thesis by (simp add: extract_array_for_key_def)
  qed
  have pos: "py_find html key 0 = int p" "p \<le> length html" if "first_from key html 0 p"
    using py_find_first [of 0 html key p] that by (simp_all add: first_from_def occurs_at_def)
  have nocolon: "extract_array_for_key html key = Inr None"
    if "first_from key html 0 p" "\<not> (\<exists>c\<ge>p. occurs_at [COLON] html c)"
  proof -
    have "py_find html [COLON] (int p) = - 1"
      using that(2) pos(2) [OF that(1)] by (intro py_find_absent) auto
    then show ?thesis using pos(1) [OF that(1)] by (simp add: extract_array_for_key_def)
  qed
  have colon: "py_find html [COLON] (int p) = int c" "c \<le> length html"
    if "first_from key html 0 p" "first_from [COLON] html p c"
    using py_find_first [OF pos(2) [OF that(1)] that(2)] that(2)
    by (simp_all add: first_from_def occurs_at_def)
  have nobracket: "extract_array_for_key html key = Inr None"
    if "first_from key html 0 p" "first_from [COLON] html p c"
      "\<not> (\<exists>b\<ge>c. occurs_at [LBRACKET] html b)"
    using pos(1) [OF that(1)] colon [OF that(1,2)] re_search_lbracket_absent [OF that(3)]
    by (simp add: extract_array_for_key_def py_slice_from_nat)
  have found: "extract_array_for_key html key =
      (case extract_js_array html (int b) of Inl e \<Rightarrow> Inl e | Inr arr \<Rightarrow> Inr (Some arr))"
    if "first_from key html 0 p" "first_from [COLON] html p c" "first_from [LBRACKET] html c b"
  proof -
    have "c \<le> b" using that(3) by (simp add: first_from_def)
    then have "int c + int (b - c) = int b" by simp
    then show ?thesis
      using pos(1) [OF that(1)] colon [OF that(1,2)] re_search_lbracket_first [OF that(3)]
      by (simp add: extract_array_for_key_def py_slice_from_nat)
  qed
  show ?thesis using none nocolon nobracket found by blast
qed


theorem extract_array_for_key_locates_first_array_witness:
  "first_from (ascii ''foo'') example_html 0 0
   \<and> first_from [COLON] example_html 0 3
   \<and> first_from [LBRACKET] example_html 3 5
   \<and> extract_array_for_key example_html (ascii ''foo'') = Inr (Some (ascii ''[{a:1},{a:2}]''))
   \<and> \<not> (\<exists>p. occurs_at (ascii ''bar'') example_html p)
   \<and> extract_array_for_key example_html (ascii ''bar'') = Inr None"
proof -
  have h: "first_from (ascii ''foo'') example_html 0 0" "first_from [COLON] example_html 0 3"
    "first_from [LBRACKET] example_html 3 5"
    by (subst first_from_eval;
        simp add: example_html_def ascii_def py_find_def slice_bound_def char_defs)+
  have e: "extract_js_array example_html (int 5) = Inr (ascii ''[{a:1},{a:2}]'')"
    by (subst extract_js_array_nat)
      (simp_all add: example_html_def ascii_def bracket_step_def char_defs)
  have n: "\<not> (\<exists>p. occurs_at (ascii ''bar'') example_html p)"
    using absent_eval [of 0 example_html "ascii ''bar''"]
    by (simp add: example_html_def ascii_def py_find_def slice_bound_def)
  from extract_array_for_key_locates_first_array
    [of "ascii ''foo''" example_html 0 3 5, THEN conjunct2, THEN conjunct2, THEN conjunct2] h e
  have a: "extract_array_for_key example_html (ascii ''foo'') =
      Inr (Some (ascii ''[{a:1},{a:2}]''))" by simp
  from extract_array_for_key_locates_first_array
    [of "ascii ''bar''" example_html, THEN conjunct1] n
  have b: "extract_array_for_key example_html (ascii ''bar'') = Inr None" by blast
  show ?thesis using h a n b by blast
qed

section \<open>Properties of slugs, prices, merchants and projections\<close>

text \<open>
  Claim C8. Every result of \<open>normalize_slug\<close> is a slug: lower-case text of runs of
  letters and digits joined by single hyphens, with no hyphen at either end. And
  \<open>normalize_slug\<close> is idempotent, for every input text, given the one fact about
  \<^verbatim>\<open>str.lower\<close> that the proof uses: it changes no text of lower-case ASCII letters,
  digits and hyphens.
\<close>

theorem normalize_slug_idempotent:
  "is_slug (normalize_slug L x)
   \<and> (lower_keeps_slugs L \<longrightarrow>
        normalize_slug L (normalize_slug L x) = normalize_slug L x)"
  using slug_shape_is_slug [OF normalize_slug_shape] normalize_slug_fixpoint normalize_slug_shape
  by blast


theorem normalize_slug_idempotent_witness:
  "lower_keeps_slugs ascii_lib
   \<and> normalize_slug ascii_lib example_title = ascii ''apple-iphone-15''
   \<and> is_slug (ascii ''apple-iphone-15'')
   \<and> normalize_slug ascii_lib (ascii ''apple-iphone-15'') = ascii ''apple-iphone-15''"
proof -
  have e: "normalize_slug ascii_lib example_title = ascii ''apple-iphone-15''"
    by code_simp
  from normalize_slug_idempotent [of ascii_lib example_title] ascii_lib_lower_keeps_slugs
  show ?thesis unfolding e by simp
qed


section \<open>Properties of the price key and the selection\<close>

text \<open>
  Claim C5, as amended. For every non-empty offer sequence in which no price has more decimal
  digits than the interpreter's limit for converting text to an integer, \<open>cheapest_offer\<close>
  returns the first offer whose price, reduced to the integer its digits spell, is minimal;
  when some price has more digits than the limit, the selection raises \<^verbatim>\<open>ValueError\<close>. An
  absent price and a price text without digits reduce to the sentinel \<open>10^12\<close>; a text with a
  digit reduces to the value of its digits when they are within the limit; and when some
  offer reduces to less than \<open>10^12\<close>, the selected offer has a price with a digit, so the
  sentinel sorts after every such price. The rupee sign before \<^verbatim>\<open>1,234\<close> reduces to 1234,
  given that the interpreter's decimal digits are the usual ones on ASCII, that the rupee
  sign is not a digit and that the limit allows four digits.
\<close>

theorem cheapest_offer_first_minimum:
  "(offers \<noteq> []
      \<and> (\<forall>x \<in> set offers. \<forall>s. price x = Some s \<longrightarrow>
            within_digit_limit L (length (filter (\<lambda>c. decimal_digit L c \<noteq> None) s))) \<longrightarrow>
      (\<exists>m<length offers. \<exists>km. cheapest_offer L offers = Inr (offers ! m)
         \<and> clean_price_to_int L (price (offers ! m)) = Inr km
         \<and> (\<forall>j<length offers. \<exists>kj. clean_price_to_int L (price (offers ! j)) = Inr kj
                \<and> km \<le> kj)
         \<and> (\<forall>j<m. \<exists>kj. clean_price_to_int L (price (offers ! j)) = Inr kj \<and> km < kj)))
   \<and> ((\<exists>x \<in> set offers. \<exists>s. price x = Some s
          \<and> \<not> within_digit_limit L (length (filter (\<lambda>c. decimal_digit L c \<noteq> None) s))) \<longrightarrow>
        cheapest_offer L offers = Inl ValueError)
   \<and> clean_price_to_int L None = Inr (10 ^ 12)
   \<and> ((\<forall>c \<in> set t. decimal_digit L c = None) \<longrightarrow>
        clean_price_to_int L (Some t) = Inr (10 ^ 12))
   \<and> ((\<exists>c \<in> set t. decimal_digit L c \<noteq> None) \<longrightarrow>
        clean_price_to_int L (Some t) =
          (if within_digit_limit L (length (filter (\<lambda>c. decimal_digit L c \<noteq> None) t))
           then Inr (int_of_digits L (filter (\<lambda>c. decimal_digit L c \<noteq> None) t))
           else Inl ValueError))
   \<and> (cheapest_offer L offers = Inr best
        \<and> (\<exists>x \<in> set offers. \<exists>k. clean_price_to_int L (price x) = Inr k \<and> k < 10 ^ 12) \<longrightarrow>
        (\<exists>s. price best = Some s \<and> (\<exists>c \<in> set s. decimal_digit L c \<noteq> None)))
   \<and> (ascii_digits L \<and> decimal_digit L RUPEE = None \<and> within_digit_limit L 4 \<longrightarrow>
        clean_price_to_int L (Some (RUPEE # ascii ''1,234'')) = Inr 1234)"
proof -
  let ?key = "\<lambda>x. clean_price_to_int L (price x)"
  have 1: "\<exists>m<length offers. \<exists>km. cheapest_offer L offers = Inr (offers ! m)
         \<and> ?key (offers ! m) = Inr km
         \<and> (\<forall>j<length offers. \<exists>kj. ?key (offers ! j) = Inr kj \<and> km \<le> kj)
         \<and> (\<forall>j<m. \<exists>kj. ?key (offers ! j) = Inr kj \<and> km < kj)"
    if h: "offers \<noteq> []
      \<and> (\<forall>x \<in> set offers. \<forall>s. price x = Some s \<longrightarrow>
            within_digit_limit L (length (filter (\<lambda>c. decimal_digit L c \<noteq> None) s)))"
  proof -
    have k: "\<forall>x \<in> set offers. \<exists>v. ?key x = Inr v"
      using h clean_price_within [of _ L] by blast
    from h have ne: "offers \<noteq> []" by simp
    from py_min_first_minimum [OF ne k] obtain m where m: "m < length offers"
      "cheapest_offer L offers = Inr (offers ! m)"
      "\<forall>j<length offers. projr (?key (offers ! m)) \<le> projr (?key (offers ! j))"
      "\<forall>j<m. projr (?key (offers ! m)) < projr (?key (offers ! j))"
      unfolding cheapest_offer_def by blast
    have kj: "\<exists>v. ?key (offers ! j) = Inr v" if "j < length offers" for j
      using k that by (simp add: nth_mem)
    from kj [OF m(1)] obtain km where km: "?key (offers ! m) = Inr km" by blast
    have a: "\<forall>j<length offers. \<exists>kj. ?key (offers ! j) = Inr kj \<and> km \<le> kj"
    proof (intro allI impI)
      fix j assume j: "j < length offers"
      from kj [OF j] obtain v where v: "?key (offers ! j) = Inr v" by blast
      then show "\<exists>kj. ?key (offers ! j) = Inr kj \<and> km \<le> kj"
        using m(3) [rule_format, OF j] km by simp
    qed
    have b: "\<forall>j<m. \<exists>kj. ?key (offers ! j) = Inr kj \<and> km < kj"
    proof (intro allI impI)
      fix j assume j: "j < m"
      then have "j < length offers" using m(1) by simp
      from kj [OF this] obtain v where v: "?key (offers ! j) = Inr v" by blast
      then show "\<exists>kj. ?key (offers ! j) = Inr kj \<and> km < kj"
        using m(4) [rule_format, OF j] km by simp
    qed
    show ?thesis using m(1,2) km a b by blast
  qed
  have 2: "cheapest_offer L offers = Inl ValueError"
    if h: "\<exists>x \<in> set offers. \<exists>s. price x = Some s
          \<and> \<not> within_digit_limit L (length (filter (\<lambda>c. decimal_digit L c \<noteq> None) s))"
  proof -
    from h obtain x s where x: "x \<in> set offers" "price x = Some s"
      "\<not> within_digit_limit L (length (filter (\<lambda>c. decimal_digit L c \<noteq> None) s))" by blast
    have "?key x = Inl ValueError" using clean_price_beyond [OF x(3)] x(2) by simp
    then have "\<exists>x \<in> set offers. ?key x = Inl ValueError" using x(1) by blast
    moreover have "\<forall>x \<in> set offers. \<forall>e'. ?key x = Inl e' \<longrightarrow> e' = ValueError"
      using clean_price_error by blast
    ultimately show ?thesis unfolding cheapest_offer_def by (rule py_min_error)
  qed
  have 6: "\<exists>s. price best = Some s \<and> (\<exists>c \<in> set s. decimal_digit L c \<noteq> None)"
    if h: "cheapest_offer L offers = Inr best
        \<and> (\<exists>x \<in> set offers. \<exists>k. clean_price_to_int L (price x) = Inr k \<and> k < 10 ^ 12)"
  proof -
    from h obtain x k where x: "x \<in> set offers" "?key x = Inr k" "k < 10 ^ 12" by blast
    have ne: "offers \<noteq> []" using x(1) by auto
    have all: "\<forall>x \<in> set offers. \<exists>v. ?key x = Inr v"
    proof (rule ccontr)
      assume "\<not> ?thesis"
      then obtain y where y: "y \<in> set offers" "\<forall>v. ?key y \<noteq> Inr v" by blast
      then obtain e where "?key y = Inl e" by (cases "?key y") auto
      then have "?key y = Inl ValueError" using clean_price_error by blast
      then have "\<exists>x \<in> set offers. ?key x = Inl ValueError" using y(1) by blast
      moreover have "\<forall>x \<in> set offers. \<forall>e'. ?key x = Inl e' \<longrightarrow> e' = ValueError"
        using clean_price_error by blast
      ultimately have "cheapest_offer L offers = Inl ValueError"
        unfolding cheapest_offer_def by (rule py_min_error)
      then show False using h by simp
    qed
    from py_min_first_minimum [OF ne all] obtain m where m: "m < length offers"
      "cheapest_offer L offers = Inr (offers ! m)"
      "\<forall>j<length offers. projr (?key (offers ! m)) \<le> projr (?key (offers ! j))"
      unfolding cheapest_offer_def by blast
    from x(1) obtain i where i: "i < length offers" "offers ! i = x"
      by (auto simp: in_set_conv_nth)
    have b: "best = offers ! m" using m(2) h by simp
    have "projr (?key best) \<le> k" using m(3) [rule_format, OF i(1)] i(2) x(2) b by simp
    then have lt: "projr (?key best) < 10 ^ 12" using x(3) by simp
    show ?thesis
    proof (cases "price best")
      case None
      then show ?thesis using lt by (simp add: clean_price_None)
    next
      case (Some s)
      have "\<exists>c \<in> set s. decimal_digit L c \<noteq> None"
      proof (rule ccontr)
        assume "\<not> ?thesis"
        then have "\<forall>c \<in> set s. decimal_digit L c = None" by blast
        from clean_price_no_digits [OF this] show False using lt Some by simp
      qed
      then show ?thesis using Some by blast
    qed
  qed
  show ?thesis
    using 1 2 6 clean_price_None [of L] clean_price_no_digits [of t L]
      clean_price_digits [of t L] clean_price_example [of L]
    by blast
qed

text \<open>
  Three offers at 500 rupees, without a price and at 300 rupees, of which the last is
  selected; and an offer whose price has 4301 digits, on which the selection raises under
  the default limit of 4300.
\<close>

theorem cheapest_offer_first_minimum_witness:
  "[offer_a, absent_offer, offer_c] \<noteq> []
   \<and> cheapest_offer ascii_lib [offer_a, absent_offer, offer_c] = Inr offer_c
   \<and> (\<exists>s. price offer_c = Some s \<and> (\<exists>c \<in> set s. decimal_digit ascii_lib c \<noteq> None))
   \<and> cheapest_offer ascii_lib [offer_a, long_offer] = Inl ValueError
   \<and> ascii_digits ascii_lib \<and> decimal_digit ascii_lib RUPEE = None
   \<and> within_digit_limit ascii_lib 4
   \<and> clean_price_to_int ascii_lib (Some (RUPEE # ascii ''1,234'')) = Inr 1234
   \<and> clean_price_to_int ascii_lib (Some (ascii ''N/A'')) = Inr (10 ^ 12)
   \<and> clean_price_to_int ascii_lib (Some (replicate 4301 49)) = Inl ValueError"
proof -
  let ?xs = "[offer_a, absent_offer, offer_c]"
  let ?key = "\<lambda>x. clean_price_to_int ascii_lib (price x)"
  note t = cheapest_offer_first_minimum [of ?xs ascii_lib "ascii ''N/A''" offer_c]
  have h: "?xs \<noteq> []
      \<and> (\<forall>x \<in> set ?xs. \<forall>s. price x = Some s \<longrightarrow>
            within_digit_limit ascii_lib
              (length (filter (\<lambda>c. decimal_digit ascii_lib c \<noteq> None) s)))"
    using example_limits(1,2) by (simp add: offer_a_def absent_offer_def offer_c_def)
  from t [THEN conjunct1, THEN mp, OF h] obtain m km where
    m: "m < length ?xs" "cheapest_offer ascii_lib ?xs = Inr (?xs ! m)"
      "?key (?xs ! m) = Inr km"
      "\<forall>j<length ?xs. \<exists>kj. ?key (?xs ! j) = Inr kj \<and> km \<le> kj"
    by blast
  from m(4) [rule_format, of 2] have le: "km \<le> 300" using example_keys(3) by simp
  from m(1) consider "m = 0" | "m = 1" | "m = 2" by fastforce
  then have "m = 2"
  proof cases
    case 1
    then show ?thesis using m(3) le example_keys(1) by simp
  next
    case 2
    then show ?thesis using m(3) le example_keys(2) by simp
  qed
  then have a: "cheapest_offer ascii_lib ?xs = Inr offer_c" using m(2) by simp
  have "cheapest_offer ascii_lib ?xs = Inr offer_c
      \<and> (\<exists>x \<in> set ?xs. \<exists>k. ?key x = Inr k \<and> k < 10 ^ 12)"
    using a example_keys(3) by simp
  from t [THEN conjunct2, THEN conjunct2, THEN conjunct2, THEN conjunct2, THEN conjunct2,
      THEN conjunct1, THEN mp, OF this]
  have b: "\<exists>s. price offer_c = Some s \<and> (\<exists>c \<in> set s. decimal_digit ascii_lib c \<noteq> None)" .
  have n: "\<forall>c \<in> set (ascii ''N/A''). decimal_digit ascii_lib c = None"
    by (simp add: ascii_def ascii_lib_def ascii_digit_def)
  from t [THEN conjunct2, THEN conjunct2, THEN conjunct2, THEN conjunct1, THEN mp, OF n]
  have c: "clean_price_to_int ascii_lib (Some (ascii ''N/A'')) = Inr (10 ^ 12)" .
  have "ascii_digits ascii_lib \<and> decimal_digit ascii_lib RUPEE = None
      \<and> within_digit_limit ascii_lib 4"
    using ascii_lib_digits by simp
  from t [THEN conjunct2, THEN conjunct2, THEN conjunct2, THEN conjunct2, THEN conjunct2,
      THEN conjunct2, THEN mp, OF this]
  have d: "clean_price_to_int ascii_lib (Some (RUPEE # ascii ''1,234'')) = Inr 1234" .
  note u = cheapest_offer_first_minimum
    [of "[offer_a, long_offer]" ascii_lib "replicate 4301 49" offer_a]
  have "\<exists>x \<in> set [offer_a, long_offer]. \<exists>s. price x = Some s
      \<and> \<not> within_digit_limit ascii_lib
            (length (filter (\<lambda>c. decimal_digit ascii_lib c \<noteq> None) s))"
    using example_limits(3) by (simp add: long_offer_def)
  from u [THEN conjunct2, THEN conjunct1, THEN mp, OF this]
  have e: "cheapest_offer ascii_lib [offer_a, long_offer] = Inl ValueError" .
  have "\<exists>c \<in> set (replicate 4301 49). decimal_digit ascii_lib c \<noteq> None"
    by (simp add: ascii_lib_def ascii_digit_def)
  from u [THEN conjunct2, THEN conjunct2, THEN conjunct2, THEN conjunct2, THEN conjunct1,
      THEN mp, OF this]
  have f: "clean_price_to_int ascii_lib (Some (replicate 4301 49)) = Inl ValueError"
    using example_limits(3) by simp
  show ?thesis using a b c d e f ascii_lib_digits by simp
qed

text \<open>
  The claim C5 as first stated calls the sentinel the maximum, so that a price without
  digits sorts last. The sentinel is the constant \<open>10^12\<close>: beside an offer of
  \<^verbatim>\<open>1,000,000,000,001\<close> rupees the offer without a price is the cheapest.
\<close>

theorem absent_price_sorts_first:
  "cheapest_offer ascii_lib [absent_offer, dear_offer] = Inr absent_offer
   \<and> price absent_offer = None
   \<and> clean_price_to_int ascii_lib (price absent_offer) = Inr 1000000000000
   \<and> clean_price_to_int ascii_lib (price dear_offer) = Inr 1000000000001"
  by (simp add: cheapest_offer_def py_min_def absent_offer_def dear_offer_def
      clean_price_to_int_def ascii_lib_def ascii_def ascii_digit_def int_of_digits_def
      digit_value_def RUPEE_def within_digit_limit_def)


section \<open>Properties of the offer projection\<close>





end
